theory Spec2Isabelle
  imports Complex_Main "HOL-Library.Multiset"
begin

section \<open>Python values used by transaction.py\<close>

text \<open>
  The exceptions the module can raise: the \<^verbatim>\<open>assert\<close> of
  \<^verbatim>\<open>update_adjacency_graph\<close>, a list index out of range
  (\<^verbatim>\<open>givers[current_giver]\<close>) and a missing dictionary key.
  A function that can raise returns \<open>error + 'a\<close>, \<open>Inl\<close> being the exception.
\<close>

datatype error = AssertionError | IndexError | KeyError

definition ebind :: "error + 'a \<Rightarrow> ('a \<Rightarrow> error + 'b) \<Rightarrow> error + 'b" where
  "ebind m f = (case m of Inl e \<Rightarrow> Inl e | Inr x \<Rightarrow> f x)"

text \<open>
  A Python \<^verbatim>\<open>dict\<close> keeps its keys in insertion order, and
  \<^verbatim>\<open>simplify_transactions\<close> depends on that order, so a dictionary is an
  association list. \<open>setitem\<close> is \<^verbatim>\<open>d[k] = v\<close>: an existing key keeps its
  position, a new key goes to the end. \<open>getitem\<close> is \<^verbatim>\<open>d[k]\<close>.
  Amounts are exact rationals (Python's \<^verbatim>\<open>int\<close> and \<^verbatim>\<open>Fraction\<close>, and
  the halves of the tests, which floats add without rounding); the rounding of other
  floats is modelled apart, for the graph builder only.
\<close>

type_synonym ('k, 'v) dict = "('k \<times> 'v) list"

definition keys :: "('k, 'v) dict \<Rightarrow> 'k list" where
  "keys d = map fst d"

definition values_of :: "('k, 'v) dict \<Rightarrow> 'v list" where
  "values_of d = map snd d"

definition getitem :: "('k, 'v) dict \<Rightarrow> 'k \<Rightarrow> error + 'v" where
  "getitem d k = (case map_of d k of None \<Rightarrow> Inl KeyError | Some v \<Rightarrow> Inr v)"

fun setitem :: "('k, 'v) dict \<Rightarrow> 'k \<Rightarrow> 'v \<Rightarrow> ('k, 'v) dict" where
  "setitem [] k v = [(k, v)]"
| "setitem ((k', v') # d) k v =
     (if k' = k then (k, v) # d else (k', v') # setitem d k v)"

definition index :: "'a list \<Rightarrow> nat \<Rightarrow> error + 'a" where
  "index xs i = (if i < length xs then Inr (xs ! i) else Inl IndexError)"

fun collect :: "('a \<Rightarrow> error + 'b) \<Rightarrow> 'a list \<Rightarrow> error + 'b list" where
  "collect f [] = Inr []"
| "collect f (x # xs) = ebind (f x) (\<lambda>y. ebind (collect f xs) (\<lambda>ys. Inr (y # ys)))"

section \<open>The data model\<close>

type_synonym 'p graph = "('p, ('p, rat) dict) dict"

section \<open>update_adjacency_graph\<close>

text \<open>
  The three statement forms on an edge: \<^verbatim>\<open>g[a][b] = v\<close>,
  \<^verbatim>\<open>g[a][b] += x\<close> and \<^verbatim>\<open>g[a][b] -= x\<close>. The inner dictionary
  is mutated in place, so the outer key keeps its position.
\<close>

definition assign_edge :: "'p graph \<Rightarrow> 'p \<Rightarrow> 'p \<Rightarrow> rat \<Rightarrow> error + 'p graph" where
  "assign_edge g a b v = ebind (getitem g a) (\<lambda>m. Inr (setitem g a (setitem m b v)))"

definition iadd_edge :: "'p graph \<Rightarrow> 'p \<Rightarrow> 'p \<Rightarrow> rat \<Rightarrow> error + 'p graph" where
  "iadd_edge g a b x =
     ebind (getitem g a) (\<lambda>m. ebind (getitem m b) (\<lambda>v. Inr (setitem g a (setitem m b (v + x)))))"

definition isub_edge :: "'p graph \<Rightarrow> 'p \<Rightarrow> 'p \<Rightarrow> rat \<Rightarrow> error + 'p graph" where
  "isub_edge g a b x =
     ebind (getitem g a) (\<lambda>m. ebind (getitem m b) (\<lambda>v. Inr (setitem g a (setitem m b (v - x)))))"

definition update_adjacency_graph :: "'p graph \<Rightarrow> 'p \<Rightarrow> 'p \<Rightarrow> rat \<Rightarrow> error + 'p graph" where
  "update_adjacency_graph adjacency_graph debtor pay_to amount =
     (let g1 = (if debtor \<notin> set (keys adjacency_graph)
                then setitem adjacency_graph debtor [] else adjacency_graph);
          g2 = (if pay_to \<notin> set (keys g1) then setitem g1 pay_to [] else g1)
      in ebind (getitem g2 debtor) (\<lambda>of_debtor.
           if pay_to \<in> set (keys of_debtor) then
             ebind (getitem g2 pay_to) (\<lambda>of_pay_to.
               if debtor \<notin> set (keys of_pay_to) then Inl AssertionError
               else ebind (iadd_edge g2 debtor pay_to amount) (\<lambda>g3.
                      isub_edge g3 pay_to debtor amount))
           else ebind (assign_edge g2 debtor pay_to amount) (\<lambda>g3.
                  assign_edge g3 pay_to debtor (- amount))))"

section \<open>transaction_adjacency_graph\<close>

text \<open>
  A transaction is the dictionary
  \<^verbatim>\<open>{"debtor": ..., "pay_to": ..., "amount": ...}\<close> of the source.
\<close>

record 'p transaction =
  debtor :: 'p
  pay_to :: 'p
  amount :: rat

text \<open>
  \<^verbatim>\<open>all_people\<close> is a Python set; the order in which the dictionary
  comprehension iterates over it is not fixed by the language. The model takes that
  order as the argument \<open>people_order\<close>: any list that enumerates the set once.
\<close>

definition all_people :: "'p transaction list \<Rightarrow> 'p set" where
  "all_people pairwise_transactions =
     set (map debtor pairwise_transactions) \<union> set (map pay_to pairwise_transactions)"

definition iterates :: "'p list \<Rightarrow> 'p transaction list \<Rightarrow> bool" where
  "iterates people_order pairwise_transactions \<longleftrightarrow>
     distinct people_order \<and> set people_order = all_people pairwise_transactions"

fun fill :: "'p graph \<Rightarrow> 'p transaction list \<Rightarrow> error + 'p graph" where
  "fill adjacency_graph [] = Inr adjacency_graph"
| "fill adjacency_graph (t # ts) =
     ebind (update_adjacency_graph adjacency_graph (debtor t) (pay_to t) (amount t))
       (\<lambda>g. fill g ts)"

definition transaction_adjacency_graph ::
    "'p list \<Rightarrow> 'p transaction list \<Rightarrow> error + 'p graph" where
  "transaction_adjacency_graph people_order pairwise_transactions =
     fill (map (\<lambda>k. (k, [])) people_order) pairwise_transactions"

section \<open>people_and_total_debt\<close>

definition people_and_total_debt :: "'p graph \<Rightarrow> error + ('p list \<times> ('p, rat) dict)" where
  "people_and_total_debt adjacency_graph =
     (let people = keys adjacency_graph
      in ebind (collect (\<lambda>k. ebind (getitem adjacency_graph k)
                               (\<lambda>m. Inr (k, sum_list (values_of m)))) people)
           (\<lambda>people_to_total_debt. Inr (people, people_to_total_debt)))"

section \<open>simplify_transactions\<close>

record 'p loop_state =
  givers :: "('p \<times> rat) list"
  receivers :: "('p \<times> rat) list"
  current_giver :: nat
  current_receiver :: nat
  simplified_debt_hash :: "'p graph"

text \<open>One iteration of the \<^verbatim>\<open>while\<close> loop, entered with the loop condition true.\<close>

definition loop_body :: "'p loop_state \<Rightarrow> error + 'p loop_state" where
  "loop_body st =
     ebind (index (givers st) (current_giver st)) (\<lambda>g.
     ebind (index (receivers st) (current_receiver st)) (\<lambda>r.
       if snd g < snd r then
         (let give_amount = snd g; give_name = fst g; receive_name = fst r;
              givers' = (givers st)[current_giver st := (fst g, snd g - give_amount)];
              receivers' = (receivers st)[current_receiver st := (fst r, snd r - give_amount)]
          in ebind (update_adjacency_graph (simplified_debt_hash st)
                      give_name receive_name give_amount)
               (\<lambda>h. Inr (st\<lparr>givers := givers', receivers := receivers',
                              simplified_debt_hash := h,
                              current_giver := current_giver st + 1\<rparr>)))
       else
         (let give_amount = snd r; give_name = fst g; receive_name = fst r;
              givers' = (givers st)[current_giver st := (fst g, snd g - give_amount)];
              receivers' = (receivers st)[current_receiver st := (fst r, snd r - give_amount)]
          in ebind (update_adjacency_graph (simplified_debt_hash st)
                      give_name receive_name give_amount)
               (\<lambda>h. Inr (st\<lparr>givers := givers', receivers := receivers',
                              simplified_debt_hash := h,
                              current_receiver := current_receiver st + 1\<rparr>)))))"

definition remaining_iterations :: "'p loop_state \<Rightarrow> nat" where
  "remaining_iterations st =
     (length (givers st) - current_giver st) + (length (receivers st) - current_receiver st)"

function greedy_loop :: "'p loop_state \<Rightarrow> error + 'p graph" where
  "greedy_loop st =
     (if current_receiver st < length (receivers st) then
        (case loop_body st of Inl e \<Rightarrow> Inl e | Inr st' \<Rightarrow> greedy_loop st')
      else Inr (simplified_debt_hash st))"
  by pat_completeness auto
termination
  by (relation "measure remaining_iterations")
     (auto simp: loop_body_def ebind_def index_def remaining_iterations_def Let_def
           split: if_splits sum.splits)

declare greedy_loop.simps [simp del]

definition simplify_transactions :: "'p graph \<Rightarrow> error + 'p graph" where
  "simplify_transactions adjacency_graph =
     ebind (people_and_total_debt adjacency_graph) (\<lambda>(people, people_to_total_debt).
     ebind (collect (\<lambda>p. ebind (getitem people_to_total_debt p) (\<lambda>t. Inr (p, t))) people)
       (\<lambda>debts.
          let receivers = map (\<lambda>(p, t). (p, - t)) (filter (\<lambda>(p, t). t < 0) debts);
              givers = filter (\<lambda>(p, t). t > 0) debts
          in greedy_loop \<lparr>givers = givers, receivers = receivers,
                          current_giver = 0, current_receiver = 0,
                          simplified_debt_hash = []\<rparr>))"

section \<open>Reading a graph\<close>

text \<open>
  \<open>edge g a b\<close> is \<^verbatim>\<open>g[a][b]\<close> when both keys are there, \<open>weight\<close> is the
  same with 0 for a missing edge, \<open>total g a\<close> is \<^verbatim>\<open>sum(g[a].values())\<close>
  (0 when \<open>a\<close> is no key), and \<open>as_mapping\<close> forgets the insertion order: two
  dictionaries of dictionaries are equal in Python exactly when their \<open>as_mapping\<close>
  are equal.
\<close>

definition inner :: "'p graph \<Rightarrow> 'p \<Rightarrow> ('p, rat) dict" where
  "inner g a = (case map_of g a of None \<Rightarrow> [] | Some m \<Rightarrow> m)"

definition edge :: "'p graph \<Rightarrow> 'p \<Rightarrow> 'p \<Rightarrow> rat option" where
  "edge g a b = (case map_of g a of None \<Rightarrow> None | Some m \<Rightarrow> map_of m b)"

definition weight :: "'p graph \<Rightarrow> 'p \<Rightarrow> 'p \<Rightarrow> rat" where
  "weight g a b = (case edge g a b of None \<Rightarrow> 0 | Some v \<Rightarrow> v)"

definition total :: "'p graph \<Rightarrow> 'p \<Rightarrow> rat" where
  "total g a = (case map_of g a of None \<Rightarrow> 0 | Some m \<Rightarrow> sum_list (values_of m))"

definition as_mapping :: "'p graph \<Rightarrow> 'p \<Rightarrow> ('p \<Rightarrow> rat option) option" where
  "as_mapping g a = map_option map_of (map_of g a)"

text \<open>
  The two invariants of an adjacency graph, over the keys that are there: every edge
  has its reverse edge, and the reverse edge carries the negated weight.
\<close>

definition mutually_present :: "'p graph \<Rightarrow> bool" where
  "mutually_present g \<longleftrightarrow>
     (\<forall>a \<in> set (keys g). \<forall>b \<in> set (keys (inner g a)).
        b \<in> set (keys g) \<and> a \<in> set (keys (inner g b)))"

definition antisymmetric :: "'p graph \<Rightarrow> bool" where
  "antisymmetric g \<longleftrightarrow>
     (\<forall>a \<in> set (keys g). \<forall>b \<in> set (keys (inner g a)).
        edge g a b = Some (- weight g b a))"

section \<open>What the transactions say\<close>

text \<open>
  The reference quantities the graph is compared with: \<open>net ts a\<close> is what \<open>a\<close> owes
  minus what \<open>a\<close> is owed over the list, \<open>flow ts a b\<close> is the same between two
  people, and \<open>linked ts a b\<close> says that some transaction joins them.
  \<open>symmetric_edges\<close> is \<open>mutually_present\<close> stated on \<open>edge\<close>.
\<close>

definition net :: "'p transaction list \<Rightarrow> 'p \<Rightarrow> rat" where
  "net ts a = sum_list (map (\<lambda>t. (if a = debtor t then amount t else 0)
                                 - (if a = pay_to t then amount t else 0)) ts)"

definition flow :: "'p transaction list \<Rightarrow> 'p \<Rightarrow> 'p \<Rightarrow> rat" where
  "flow ts a b = sum_list (map (\<lambda>t. (if a = debtor t \<and> b = pay_to t then amount t else 0)
                                 - (if a = pay_to t \<and> b = debtor t then amount t else 0)) ts)"

definition linked :: "'p transaction list \<Rightarrow> 'p \<Rightarrow> 'p \<Rightarrow> bool" where
  "linked ts a b \<longleftrightarrow>
     (\<exists>t \<in> set ts. (a = debtor t \<and> b = pay_to t) \<or> (a = pay_to t \<and> b = debtor t))"

definition symmetric_edges :: "'p graph \<Rightarrow> bool" where
  "symmetric_edges g \<longleftrightarrow> (\<forall>a b. edge g a b \<noteq> None \<longrightarrow> edge g b a \<noteq> None)"

section \<open>The invariant of the greedy loop\<close>

text \<open>
  What holds at the head of the \<^verbatim>\<open>while\<close> loop, for the lists \<open>gs\<close> of givers and
  \<open>rs\<close> of receivers, the cursors \<open>i\<close> and \<open>j\<close> and the graph \<open>S\<close> built so far:
  the names are all different; the givers before the cursor are paid up, the one under
  it has a non-negative rest, the later ones a positive rest; the receivers before the
  cursor are served and the others still wait for a positive amount; the two rests add
  up to the same sum; and for each name the total in \<open>S\<close> plus the rest is the
  original total \<open>T\<close>. \<open>debts_of\<close> and \<open>initial_state\<close> are the lists and the state
  \<open>simplify_transactions\<close> starts the loop with.
\<close>

definition names_ok :: "('p \<times> rat) list \<Rightarrow> ('p \<times> rat) list \<Rightarrow> bool" where
  "names_ok gs rs \<longleftrightarrow> distinct (map fst gs @ map fst rs)"

definition givers_ok :: "('p \<times> rat) list \<Rightarrow> nat \<Rightarrow> bool" where
  "givers_ok gs i \<longleftrightarrow>
     (\<forall>k < length gs. (k < i \<longrightarrow> snd (gs ! k) = 0) \<and> 0 \<le> snd (gs ! k)
                      \<and> (i < k \<longrightarrow> 0 < snd (gs ! k)))"

definition receivers_ok :: "('p \<times> rat) list \<Rightarrow> nat \<Rightarrow> bool" where
  "receivers_ok rs j \<longleftrightarrow>
     (\<forall>k < length rs. (k < j \<longrightarrow> snd (rs ! k) = 0) \<and> (j \<le> k \<longrightarrow> 0 < snd (rs ! k)))"

definition balanced :: "('p \<times> rat) list \<Rightarrow> ('p \<times> rat) list \<Rightarrow> bool" where
  "balanced gs rs \<longleftrightarrow> sum_list (map snd gs) = sum_list (map snd rs)"

definition accounted ::
    "('p \<Rightarrow> rat) \<Rightarrow> ('p \<times> rat) list \<Rightarrow> ('p \<times> rat) list \<Rightarrow> 'p graph \<Rightarrow> bool" where
  "accounted T gs rs S \<longleftrightarrow>
     (\<forall>k < length gs. total S (fst (gs ! k)) + snd (gs ! k) = T (fst (gs ! k)))
     \<and> (\<forall>k < length rs. total S (fst (rs ! k)) - snd (rs ! k) = T (fst (rs ! k)))
     \<and> (\<forall>a. map_of S a \<noteq> None \<longrightarrow> a \<in> set (map fst gs) \<union> set (map fst rs))"

definition loop_inv :: "('p \<Rightarrow> rat) \<Rightarrow> 'p loop_state \<Rightarrow> bool" where
  "loop_inv T st \<longleftrightarrow>
     names_ok (givers st) (receivers st)
     \<and> givers_ok (givers st) (current_giver st)
     \<and> receivers_ok (receivers st) (current_receiver st)
     \<and> balanced (givers st) (receivers st)
     \<and> symmetric_edges (simplified_debt_hash st)
     \<and> accounted T (givers st) (receivers st) (simplified_debt_hash st)"

definition debts_of :: "'p graph \<Rightarrow> ('p \<times> rat) list" where
  "debts_of g = map (\<lambda>k. (k, total g k)) (keys g)"

definition initial_state :: "'p graph \<Rightarrow> 'p loop_state" where
  "initial_state g =
     \<lparr>givers = filter (\<lambda>(p, t). 0 < t) (debts_of g),
      receivers = map (\<lambda>(p, t). (p, - t)) (filter (\<lambda>(p, t). t < 0) (debts_of g)),
      current_giver = 0, current_receiver = 0, simplified_debt_hash = []\<rparr>"

section \<open>The test data of TestAdjacency and TestSimplify\<close>

text \<open>
  \<open>standard_transactions\<close> and \<open>single_actual_simplified\<close> are the class attributes
  of the tests, 12.5 written as \<open>25 / 2\<close>. \<open>orders xs\<close> lists every arrangement of
  \<open>xs\<close>: the orders in which a set with these elements can be iterated.
  \<open>plan_of ts ppl\<close> is the loop started from the net balances of \<open>ts\<close> in the order
  \<open>ppl\<close>, and \<open>same_plan r E\<close> checks that \<open>r\<close> is a graph with the keys and the
  entries of \<open>E\<close>.
\<close>

fun interleave :: "'a \<Rightarrow> 'a list \<Rightarrow> 'a list list" where
  "interleave x [] = [[x]]"
| "interleave x (y # ys) = (x # y # ys) # map ((#) y) (interleave x ys)"

fun orders :: "'a list \<Rightarrow> 'a list list" where
  "orders [] = [[]]"
| "orders (x # xs) = concat (map (interleave x) (orders xs))"

definition standard_transactions :: "string transaction list" where
  "standard_transactions =
     [\<lparr>debtor = ''Kevin'', pay_to = ''Xander'', amount = 800\<rparr>,
      \<lparr>debtor = ''John'', pay_to = ''Xander'', amount = 750\<rparr>,
      \<lparr>debtor = ''William'', pay_to = ''Xander'', amount = 800\<rparr>,
      \<lparr>debtor = ''Xander'', pay_to = ''Kevin'', amount = 30\<rparr>,
      \<lparr>debtor = ''Kevin'', pay_to = ''Xander'', amount = 20\<rparr>,
      \<lparr>debtor = ''John'', pay_to = ''William'', amount = 100\<rparr>,
      \<lparr>debtor = ''William'', pay_to = ''Kevin'', amount = 40\<rparr>,
      \<lparr>debtor = ''Xander'', pay_to = ''John'', amount = 20\<rparr>,
      \<lparr>debtor = ''Kevin'', pay_to = ''William'', amount = 25 / 2\<rparr>]"

definition single_actual_simplified :: "string graph" where
  "single_actual_simplified =
     [(''Kevin'', [(''Xander'', 1525 / 2)]),
      (''William'', [(''Xander'', 1455 / 2)]),
      (''John'', [(''Xander'', 830)]),
      (''Xander'', [(''Kevin'', - (1525 / 2)), (''William'', - (1455 / 2)), (''John'', - 830)])]"

definition same_plan :: "error + 'p graph \<Rightarrow> 'p graph \<Rightarrow> bool" where
  "same_plan r E =
     (case r of Inl e \<Rightarrow> False
      | Inr S \<Rightarrow> set (keys S) = set (keys E)
           \<and> (\<forall>a \<in> set (keys S). \<forall>b \<in> set (keys (inner S a) @ keys (inner E a)).
                 edge S a b = edge E a b))"

definition plan_of :: "'p transaction list \<Rightarrow> 'p list \<Rightarrow> error + 'p graph" where
  "plan_of ts ppl =
     greedy_loop
       \<lparr>givers = filter (\<lambda>(p, t). 0 < t) (map (\<lambda>k. (k, net ts k)) ppl),
        receivers = map (\<lambda>(p, t). (p, - t)) (filter (\<lambda>(p, t). t < 0) (map (\<lambda>k. (k, net ts k)) ppl)),
        current_giver = 0, current_receiver = 0, simplified_debt_hash = []\<rparr>"

section \<open>The graph builder on Python floats\<close>

text \<open>
  The functions above compute with exact amounts, as the code does on \<^verbatim>\<open>int\<close> and
  \<^verbatim>\<open>Fraction\<close> amounts. On \<^verbatim>\<open>float\<close> amounts every \<^verbatim>\<open>+=\<close> and
  \<^verbatim>\<open>-=\<close> rounds. A float is the rational number it denotes, and \<open>round_double\<close>
  is the rounding of IEEE 754 binary64 arithmetic: to the nearest number with a
  significand of 53 bits, ties to the even significand. \<open>scale\<close> brings the
  significand into the range from \<open>2 ^ 52\<close> to \<open>2 ^ 53\<close>; its first argument bounds
  the number of steps and is enough for every exponent of the format. Overflow and
  subnormal numbers are not modelled. A literal such as \<^verbatim>\<open>0.1\<close> is
  \<open>round_double (1 / 10)\<close>. The functions with the suffix \<open>_float\<close> are
  \<open>update_adjacency_graph\<close> and \<open>transaction_adjacency_graph\<close> with the two rounded
  operations; assignment and negation are exact.
\<close>

definition round_even :: "rat \<Rightarrow> int" where
  "round_even q =
     (let f = \<lfloor>q\<rfloor>; r = q - of_int f
      in if r < 1 / 2 then f else if 1 / 2 < r then f + 1
         else if even f then f else f + 1)"

fun scale :: "nat \<Rightarrow> rat \<Rightarrow> int \<Rightarrow> rat \<times> int" where
  "scale 0 m e = (m, e)"
| "scale (Suc n) m e =
     (if m < 2 ^ 52 then scale n (2 * m) (e - 1)
      else if 2 ^ 53 \<le> m then scale n (m / 2) (e + 1)
      else (m, e))"

definition round_double :: "rat \<Rightarrow> rat" where
  "round_double x =
     (if x = 0 then 0
      else (let (m, e) = scale 1100 \<bar>x\<bar> 0; r = of_int (round_even m)
            in sgn x * (if 0 \<le> e then r * 2 ^ nat e else r / 2 ^ nat (- e))))"

definition iadd_edge_float :: "'p graph \<Rightarrow> 'p \<Rightarrow> 'p \<Rightarrow> rat \<Rightarrow> error + 'p graph" where
  "iadd_edge_float g a b x =
     ebind (getitem g a) (\<lambda>m. ebind (getitem m b)
       (\<lambda>v. Inr (setitem g a (setitem m b (round_double (v + x))))))"

definition isub_edge_float :: "'p graph \<Rightarrow> 'p \<Rightarrow> 'p \<Rightarrow> rat \<Rightarrow> error + 'p graph" where
  "isub_edge_float g a b x =
     ebind (getitem g a) (\<lambda>m. ebind (getitem m b)
       (\<lambda>v. Inr (setitem g a (setitem m b (round_double (v - x))))))"

definition update_adjacency_graph_float ::
    "'p graph \<Rightarrow> 'p \<Rightarrow> 'p \<Rightarrow> rat \<Rightarrow> error + 'p graph" where
  "update_adjacency_graph_float adjacency_graph d p x =
     (let g1 = (if d \<notin> set (keys adjacency_graph)
                then setitem adjacency_graph d [] else adjacency_graph);
          g2 = (if p \<notin> set (keys g1) then setitem g1 p [] else g1)
      in ebind (getitem g2 d) (\<lambda>of_debtor.
           if p \<in> set (keys of_debtor) then
             ebind (getitem g2 p) (\<lambda>of_pay_to.
               if d \<notin> set (keys of_pay_to) then Inl AssertionError
               else ebind (iadd_edge_float g2 d p x) (\<lambda>g3.
                      isub_edge_float g3 p d x))
           else ebind (assign_edge g2 d p x) (\<lambda>g3.
                  assign_edge g3 p d (- x))))"

fun fill_float :: "'p graph \<Rightarrow> 'p transaction list \<Rightarrow> error + 'p graph" where
  "fill_float adjacency_graph [] = Inr adjacency_graph"
| "fill_float adjacency_graph (t # ts) =
     ebind (update_adjacency_graph_float adjacency_graph (debtor t) (pay_to t) (amount t))
       (\<lambda>g. fill_float g ts)"

definition transaction_adjacency_graph_float ::
    "'p list \<Rightarrow> 'p transaction list \<Rightarrow> error + 'p graph" where
  "transaction_adjacency_graph_float people_order pairwise_transactions =
     fill_float (map (\<lambda>k. (k, [])) people_order) pairwise_transactions"

section \<open>Dictionary operations\<close>

lemma map_of_setitem: "map_of (setitem d k v) = (map_of d)(k \<mapsto> v)"
  by (induction d) auto

lemma in_keys_iff: "k \<in> set (keys d) \<longleftrightarrow> map_of d k \<noteq> None"
  by (simp add: keys_def map_of_eq_None_iff)

lemma keys_setitem:
  "keys (setitem d k v) = (if k \<in> set (keys d) then keys d else keys d @ [k])"
  by (induction d) (force simp: keys_def)+

lemma setitem_setitem: "setitem (setitem d k u) k v = setitem d k v"
  by (induction d) auto

lemma sum_setitem:
  "sum_list (values_of (setitem d k v)) =
     sum_list (values_of d) + v - (case map_of d k of None \<Rightarrow> 0 | Some u \<Rightarrow> (u::rat))"
  by (induction d) (auto simp: values_of_def)

section \<open>One call of update_adjacency_graph\<close>

lemmas update_defs = update_adjacency_graph_def ebind_def getitem_def assign_edge_def
  iadd_edge_def isub_edge_def Let_def in_keys_iff map_of_setitem

lemma update_succeeds:
  assumes "edge g d p \<noteq> None \<Longrightarrow> edge g p d \<noteq> None"
  shows "\<exists>g'. update_adjacency_graph g d p x = Inr g'"
  using assms
  by (auto simp: update_defs edge_def split: option.splits)

lemma update_keys:
  assumes "update_adjacency_graph g d p x = Inr g'"
  shows "keys g' = keys g @ (if d \<in> set (keys g) then [] else [d])
                          @ (if p \<in> set (keys g) \<or> p = d then [] else [p])"
  using assms
  by (auto simp: update_adjacency_graph_def ebind_def getitem_def assign_edge_def
        iadd_edge_def isub_edge_def Let_def map_of_setitem keys_setitem
      split: option.splits if_splits)

lemma update_map_of:
  assumes "update_adjacency_graph g d p x = Inr g'" and "d \<noteq> p"
    and "edge g d p = None \<longleftrightarrow> edge g p d = None"
  shows "map_of g' = (map_of g)(d \<mapsto> setitem (inner g d) p (weight g d p + x),
                                p \<mapsto> setitem (inner g p) d (weight g p d - x))"
  using assms
  by (auto simp: update_defs edge_def weight_def inner_def split: option.splits if_splits)

lemma update_map_of_self:
  assumes "update_adjacency_graph g d d x = Inr g'"
  shows "map_of g' = (map_of g)(d \<mapsto> setitem (inner g d) d
            (case edge g d d of None \<Rightarrow> - x | Some v \<Rightarrow> v))"
  using assms
  by (auto simp: update_defs edge_def inner_def setitem_setitem split: option.splits if_splits)

lemma edge_inner: "edge g a b = (if map_of g a = None then None else map_of (inner g a) b)"
  by (simp add: edge_def inner_def split: option.splits)

lemma edge_present_iff:
  "edge g a b \<noteq> None \<longleftrightarrow> a \<in> set (keys g) \<and> b \<in> set (keys (inner g a))"
  by (auto simp: edge_def inner_def in_keys_iff split: option.splits)

lemma mutually_present_iff:
  "mutually_present g \<longleftrightarrow> (\<forall>a b. edge g a b \<noteq> None \<longrightarrow> edge g b a \<noteq> None)"
  unfolding mutually_present_def edge_present_iff by blast

lemma antisymmetric_iff:
  "antisymmetric g \<longleftrightarrow> (\<forall>a b. edge g a b \<noteq> None \<longrightarrow> edge g a b = Some (- weight g b a))"
  unfolding antisymmetric_def edge_present_iff by blast

lemma update_edge:
  assumes "update_adjacency_graph g d p x = Inr g'" and "d \<noteq> p"
    and "edge g d p = None \<longleftrightarrow> edge g p d = None"
  shows "edge g' a b =
     (if a = d \<and> b = p then Some (weight g d p + x)
      else if a = p \<and> b = d then Some (weight g p d - x)
      else edge g a b)"
  unfolding edge_def [of g'] update_map_of [OF assms]
  using assms(2)
  by (auto simp: edge_def inner_def map_of_setitem split: option.splits)

lemma update_edge_self:
  assumes "update_adjacency_graph g d d x = Inr g'"
  shows "edge g' a b =
     (if a = d \<and> b = d then Some (case edge g d d of None \<Rightarrow> - x | Some v \<Rightarrow> v)
      else edge g a b)"
  unfolding edge_def [of g'] update_map_of_self [OF assms]
  by (auto simp: edge_def inner_def map_of_setitem split: option.splits)

lemma values_of_Nil: "values_of [] = []"
  by (simp add: values_of_def)

lemma update_total:
  assumes "update_adjacency_graph g d p x = Inr g'" and "d \<noteq> p"
    and "edge g d p = None \<longleftrightarrow> edge g p d = None"
  shows "total g' a = total g a + (if a = d then x else 0) - (if a = p then x else 0)"
  unfolding total_def [of g'] update_map_of [OF assms]
  using assms(2)
  by (auto simp: total_def edge_def weight_def inner_def sum_setitem values_of_Nil
      split: option.splits)

lemma symmetric_edgesD: "symmetric_edges g \<Longrightarrow> edge g a b = None \<longleftrightarrow> edge g b a = None"
  unfolding symmetric_edges_def by blast

lemma update_weight:
  assumes "update_adjacency_graph g d p x = Inr g'" and "d \<noteq> p"
    and "edge g d p = None \<longleftrightarrow> edge g p d = None"
  shows "weight g' a b = weight g a b + (if a = d \<and> b = p then x else 0)
                                      - (if a = p \<and> b = d then x else 0)"
  using assms(2) by (auto simp: weight_def [of g'] update_edge [OF assms]) (auto simp: weight_def)

lemma update_symmetric:
  assumes "update_adjacency_graph g d p x = Inr g'" and "d \<noteq> p" and "symmetric_edges g"
  shows "symmetric_edges g'"
  using assms(3) unfolding symmetric_edges_def
  by (auto simp: update_edge [OF assms(1,2) symmetric_edgesD [OF assms(3)]])

lemma if_Some_present:
  "((if P then Some u else if Q then Some v else e) \<noteq> None) \<longleftrightarrow> (e \<noteq> None \<or> P \<or> Q)"
  by auto

lemma fill_effect:
  assumes "symmetric_edges g" and "\<forall>t \<in> set ts. debtor t \<noteq> pay_to t"
  shows "\<exists>g'. fill g ts = Inr g' \<and> symmetric_edges g'
            \<and> ((\<forall>t \<in> set ts. debtor t \<in> set (keys g) \<and> pay_to t \<in> set (keys g))
                 \<longrightarrow> keys g' = keys g)
            \<and> (\<forall>a. total g' a = total g a + net ts a)
            \<and> (\<forall>a b. edge g' a b =
                  (if edge g a b \<noteq> None \<or> linked ts a b
                   then Some (weight g a b + flow ts a b) else None))"
  using assms
proof (induction ts arbitrary: g)
  case Nil
  then show ?case
    by (auto simp: net_def flow_def linked_def weight_def)
next
  case (Cons t ts)
  let ?d = "debtor t" and ?p = "pay_to t" and ?x = "amount t"
  have dp: "?d \<noteq> ?p" using Cons.prems(2) by simp
  have sym: "edge g ?d ?p = None \<longleftrightarrow> edge g ?p ?d = None"
    by (rule symmetric_edgesD [OF Cons.prems(1)])
  obtain g1 where g1: "update_adjacency_graph g ?d ?p ?x = Inr g1"
    using update_succeeds [of g ?d ?p ?x] sym by auto
  have sym1: "symmetric_edges g1"
    by (rule update_symmetric [OF g1 dp Cons.prems(1)])
  have rest: "\<forall>t \<in> set ts. debtor t \<noteq> pay_to t" using Cons.prems(2) by simp
  from Cons.IH [OF sym1 rest] obtain g' where
    f: "fill g1 ts = Inr g'" and s: "symmetric_edges g'"
    and k: "(\<forall>t \<in> set ts. debtor t \<in> set (keys g1) \<and> pay_to t \<in> set (keys g1))
              \<longrightarrow> keys g' = keys g1"
    and tt: "\<And>a. total g' a = total g1 a + net ts a"
    and e: "\<And>a b. edge g' a b =
                  (if edge g1 a b \<noteq> None \<or> linked ts a b
                   then Some (weight g1 a b + flow ts a b) else None)"
    by blast
  have 1: "fill g (t # ts) = Inr g'"
    by (simp add: g1 f ebind_def)
  have 2: "(\<forall>u \<in> set (t # ts). debtor u \<in> set (keys g) \<and> pay_to u \<in> set (keys g))
              \<longrightarrow> keys g' = keys g"
    using k update_keys [OF g1] by auto
  have 3: "total g' a = total g a + net (t # ts) a" for a
    by (simp add: tt update_total [OF g1 dp sym] net_def)
  have 4: "edge g' a b =
                  (if edge g a b \<noteq> None \<or> linked (t # ts) a b
                   then Some (weight g a b + flow (t # ts) a b) else None)" for a b
  proof -
    let ?fwd = "a = ?d \<and> b = ?p" and ?bwd = "a = ?p \<and> b = ?d"
    have p1: "edge g1 a b \<noteq> None \<longleftrightarrow> edge g a b \<noteq> None \<or> ?fwd \<or> ?bwd"
      unfolding update_edge [OF g1 dp sym] by (rule if_Some_present)
    have l: "linked (t # ts) a b \<longleftrightarrow> ?fwd \<or> ?bwd \<or> linked ts a b"
      unfolding linked_def by simp
    have fl: "flow (t # ts) a b =
                (if ?fwd then ?x else 0) - (if ?bwd then ?x else 0) + flow ts a b"
      unfolding flow_def by simp
    have w1: "weight g1 a b + flow ts a b = weight g a b + flow (t # ts) a b"
      unfolding fl update_weight [OF g1 dp sym] by simp
    have c: "(edge g1 a b \<noteq> None \<or> linked ts a b) \<longleftrightarrow> (edge g a b \<noteq> None \<or> linked (t # ts) a b)"
      unfolding p1 l by blast
    show ?thesis
      unfolding e w1 c ..
  qed
  show ?case using 1 s 2 3 4 by blast
qed

lemma map_of_initial:
  "map_of (map (\<lambda>k. (k, [])) ks) a = (if a \<in> set ks then Some [] else None)"
  by (induction ks) auto

lemma keys_initial: "keys (map (\<lambda>k. (k, [])) ks) = ks"
  by (simp add: keys_def comp_def)

lemma edge_initial: "edge (map (\<lambda>k. (k, [])) ks) a b = None"
  by (simp add: edge_def map_of_initial)

lemma total_initial: "total (map (\<lambda>k. (k, [])) ks) a = 0"
  by (simp add: total_def map_of_initial values_of_Nil)

lemma graph_of_transactions:
  fixes ppl :: "'p list"
  assumes "\<forall>t \<in> set ts. debtor t \<noteq> pay_to t"
    and "set (map debtor ts) \<union> set (map pay_to ts) \<subseteq> set ppl"
  shows "\<exists>g. transaction_adjacency_graph ppl ts = Inr g \<and> symmetric_edges g
            \<and> keys g = ppl
            \<and> (\<forall>a. total g a = net ts a)
            \<and> (\<forall>a b. edge g a b = (if linked ts a b then Some (flow ts a b) else None))"
proof -
  define g0 :: "'p graph" where "g0 = map (\<lambda>k. (k, [])) ppl"
  have e0: "edge g0 a b = None" and t0: "total g0 a = 0" and k0: "keys g0 = ppl" for a b
    by (simp_all add: g0_def edge_initial total_initial keys_initial)
  have "symmetric_edges g0"
    by (simp add: symmetric_edges_def e0)
  from fill_effect [OF this assms(1)] obtain g' where
    f: "fill g0 ts = Inr g'" and s: "symmetric_edges g'"
    and k: "(\<forall>t \<in> set ts. debtor t \<in> set (keys g0) \<and> pay_to t \<in> set (keys g0))
              \<longrightarrow> keys g' = keys g0"
    and tt: "\<And>a. total g' a = total g0 a + net ts a"
    and e: "\<And>a b. edge g' a b =
                  (if edge g0 a b \<noteq> None \<or> linked ts a b
                   then Some (weight g0 a b + flow ts a b) else None)"
    by blast
  have "keys g' = ppl"
    using k assms(2) by (auto simp: k0)
  moreover have "transaction_adjacency_graph ppl ts = Inr g'"
    using f by (simp add: transaction_adjacency_graph_def g0_def)
  moreover have "total g' a = net ts a" for a
    by (simp add: tt t0)
  moreover have "edge g' a b = (if linked ts a b then Some (flow ts a b) else None)" for a b
    by (simp add: e e0 weight_def)
  ultimately show ?thesis
    using s by blast
qed

lemma collect_totals:
  assumes "set ks \<subseteq> set (keys g)"
  shows "collect (\<lambda>k. ebind (getitem g k) (\<lambda>m. Inr (k, sum_list (values_of m)))) ks
           = Inr (map (\<lambda>k. (k, total g k)) ks)"
  using assms
  by (induction ks) (auto simp: ebind_def getitem_def total_def in_keys_iff)

lemma people_and_total_debt_eq:
  "people_and_total_debt g = Inr (keys g, map (\<lambda>k. (k, total g k)) (keys g))"
  unfolding people_and_total_debt_def Let_def collect_totals [OF subset_refl]
  by (simp add: ebind_def)

lemma sum_indicator:
  assumes "distinct ks"
  shows "sum_list (map (\<lambda>a. if a = d then (x::rat) else 0) ks) = (if d \<in> set ks then x else 0)"
  using assms by (induction ks) auto

lemma sum_net:
  assumes "distinct ks" and "set (map debtor ts) \<union> set (map pay_to ts) \<subseteq> set ks"
  shows "sum_list (map (net ts) ks) = 0"
  using assms(2)
proof (induction ts)
  case Nil
  show ?case by (simp add: net_def)
next
  case (Cons t ts)
  have "net (t # ts) = (\<lambda>a. ((if a = debtor t then amount t else 0)
                             - (if a = pay_to t then amount t else 0)) + net ts a)"
    by (simp add: net_def fun_eq_iff)
  then have "sum_list (map (net (t # ts)) ks) =
      sum_list (map (\<lambda>a. if a = debtor t then amount t else 0) ks)
      - sum_list (map (\<lambda>a. if a = pay_to t then amount t else 0) ks)
      + sum_list (map (net ts) ks)"
    by (simp add: sum_list_addf sum_list_subtractf)
  also have "\<dots> = 0"
    using Cons by (simp add: sum_indicator [OF assms(1)])
  finally show ?case .
qed

lemma iterates_subset:
  "iterates ppl ts \<Longrightarrow> distinct ppl \<and> set (map debtor ts) \<union> set (map pay_to ts) \<subseteq> set ppl"
  by (simp add: iterates_def all_people_def)

section \<open>Order of the transactions, and a transaction to oneself\<close>

lemma as_mapping_eqI:
  assumes "set (keys g) = set (keys g')" and "\<And>a b. edge g a b = edge g' a b"
  shows "as_mapping g = as_mapping g'"
proof
  fix a
  show "as_mapping g a = as_mapping g' a"
  proof (cases "map_of g a")
    case None
    then have "map_of g' a = None"
      using assms(1) in_keys_iff [of a g] in_keys_iff [of a g'] by simp
    with None show ?thesis by (simp add: as_mapping_def)
  next
    case (Some m)
    then obtain m' where m': "map_of g' a = Some m'"
      using assms(1) in_keys_iff [of a g] in_keys_iff [of a g'] by auto
    have "map_of m b = map_of m' b" for b
      using assms(2) [of a b] Some m' by (simp add: edge_def)
    then have "map_of m = map_of m'" by (rule ext)
    with Some m' show ?thesis by (simp add: as_mapping_def)
  qed
qed

lemma sum_list_mset_cong:
  fixes f :: "'a \<Rightarrow> rat"
  assumes "mset xs = mset ys"
  shows "sum_list (map f xs) = sum_list (map f ys)"
proof -
  have "sum_list (map f xs) = sum_mset (mset (map f xs))"
    by (simp only: sum_mset_sum_list)
  also have "\<dots> = sum_mset (mset (map f ys))"
    using assms by simp
  also have "\<dots> = sum_list (map f ys)"
    by (simp only: sum_mset_sum_list)
  finally show ?thesis .
qed

lemma flow_mset: "mset ts = mset ts' \<Longrightarrow> flow ts a b = flow ts' a b"
  unfolding flow_def by (rule sum_list_mset_cong)

lemma linked_mset: "mset ts = mset ts' \<Longrightarrow> linked ts a b = linked ts' a b"
  unfolding linked_def using mset_eq_setD [of ts ts'] by simp

lemma all_people_mset: "mset ts = mset ts' \<Longrightarrow> all_people ts = all_people ts'"
  unfolding all_people_def using mset_eq_setD [of ts ts'] by simp

lemma fill_append:
  "fill g (xs @ ys) = ebind (fill g xs) (\<lambda>g1. fill g1 ys)"
  by (induction xs arbitrary: g) (auto simp: ebind_def split: sum.splits)

lemma update_self_succeeds: "\<exists>g'. update_adjacency_graph g d d x = Inr g'"
  by (rule update_succeeds)

lemma update_symmetric_self:
  assumes "update_adjacency_graph g d d x = Inr g'" and "symmetric_edges g"
  shows "symmetric_edges g'"
  using assms(2) unfolding symmetric_edges_def
  by (auto simp: update_edge_self [OF assms(1)])

lemma cancel_if: "(if P \<and> Q then x else 0) - (if Q \<and> P then x else (0::rat)) = 0"
  by auto

lemma flow_self: "flow ts d d = 0"
  by (simp add: flow_def cancel_if)

lemma not_linked_self:
  assumes "\<forall>u \<in> set ts. debtor u \<noteq> pay_to u"
  shows "\<not> linked ts d d"
proof
  assume "linked ts d d"
  then obtain u where u: "u \<in> set ts" and 1: "d = debtor u" and 2: "d = pay_to u"
    unfolding linked_def by blast
  from 1 [symmetric] 2 have "debtor u = pay_to u" by (rule trans)
  with assms u show False by blast
qed

lemma getitem_edge:
  "edge g a b = Some v \<longleftrightarrow> (\<exists>m. getitem g a = Inr m \<and> getitem m b = Inr v)"
  by (auto simp: edge_def getitem_def split: option.splits)

lemma self_loop_entry:
  fixes ppl :: "'p list"
  assumes "debtor t = d" and "pay_to t = d" and "amount t = x"
    and "\<forall>u \<in> set xs. debtor u \<noteq> pay_to u" and "\<forall>u \<in> set ys. debtor u \<noteq> pay_to u"
  shows "\<exists>g. transaction_adjacency_graph ppl (xs @ t # ys) = Inr g
            \<and> edge g d d = Some (- x) \<and> (x \<noteq> 0 \<longrightarrow> \<not> antisymmetric g)"
proof -
  define g0 :: "'p graph" where "g0 = map (\<lambda>k. (k, [])) ppl"
  have e0: "edge g0 a b = None" for a b
    by (simp add: g0_def edge_initial)
  have "symmetric_edges g0"
    by (simp add: symmetric_edges_def e0)
  from fill_effect [OF this assms(4)] obtain g1 where
    f1: "fill g0 xs = Inr g1" and s1: "symmetric_edges g1"
    and e1: "\<And>a b. edge g1 a b =
                  (if edge g0 a b \<noteq> None \<or> linked xs a b
                   then Some (weight g0 a b + flow xs a b) else None)"
    by blast
  have n1: "edge g1 d d = None"
    by (simp add: e1 e0 not_linked_self [OF assms(4)])
  obtain g2 where u: "update_adjacency_graph g1 d d x = Inr g2"
    using update_self_succeeds [of g1 d x] by blast
  have s2: "symmetric_edges g2"
    by (rule update_symmetric_self [OF u s1])
  have e2: "edge g2 d d = Some (- x)"
    by (simp add: update_edge_self [OF u] n1)
  from fill_effect [OF s2 assms(5)] obtain g where
    f: "fill g2 ys = Inr g"
    and e: "\<And>a b. edge g a b =
                  (if edge g2 a b \<noteq> None \<or> linked ys a b
                   then Some (weight g2 a b + flow ys a b) else None)"
    by blast
  have ed: "edge g d d = Some (- x)"
    by (simp add: e e2 weight_def flow_self)
  have "transaction_adjacency_graph ppl (xs @ t # ys) = Inr g"
    by (simp add: transaction_adjacency_graph_def fill_append g0_def [symmetric] f1 u f
          ebind_def assms(1,2,3))
  moreover have "\<not> antisymmetric g" if "x \<noteq> 0"
  proof
    assume "antisymmetric g"
    then have "edge g d d = Some (- weight g d d)"
      using ed by (simp add: antisymmetric_iff)
    then show False using ed that by (simp add: weight_def)
  qed
  ultimately show ?thesis using ed by blast
qed

section \<open>The greedy loop\<close>

lemma sum_snd_update:
  "i < length xs \<Longrightarrow>
   sum_list (map snd (xs[i := (n, v :: rat)])) = sum_list (map snd xs) - snd (xs ! i) + v"
proof (induction xs arbitrary: i)
  case Nil
  then show ?case by simp
next
  case (Cons a xs)
  then show ?case by (cases i) simp_all
qed

lemma elem_le_sum:
  "(\<forall>k < length xs. 0 \<le> snd (xs ! k)) \<Longrightarrow> j < length xs \<Longrightarrow>
   snd (xs ! j) \<le> sum_list (map snd (xs :: ('a \<times> rat) list))"
proof (induction xs arbitrary: j)
  case Nil
  then show ?case by simp
next
  case (Cons a xs)
  have nn: "\<forall>k < length xs. 0 \<le> snd (xs ! k)"
    using Cons.prems(1) by auto
  have a0: "0 \<le> snd a" using Cons.prems(1) by auto
  have s0: "0 \<le> sum_list (map snd xs)"
    using nn by (intro sum_list_nonneg) (force simp: in_set_conv_nth)
  show ?case
  proof (cases j)
    case 0
    then show ?thesis using s0 by simp
  next
    case (Suc j')
    then have "snd (xs ! j') \<le> sum_list (map snd xs)"
      using Cons.IH [OF nn] Cons.prems(2) by simp
    then show ?thesis using Suc a0 by simp
  qed
qed

lemma all_zero_sum:
  "(\<forall>k < length xs. snd (xs ! k) = 0) \<Longrightarrow> sum_list (map snd (xs :: ('a \<times> rat) list)) = 0"
proof (induction xs)
  case Nil
  then show ?case by simp
next
  case (Cons a xs)
  then have "snd a = 0" and "\<forall>k < length xs. snd (xs ! k) = 0" by auto
  then show ?case using Cons.IH by simp
qed

lemma giver_in_range:
  assumes "givers_ok gs i" and "receivers_ok rs j" and "balanced gs rs" and "j < length rs"
  shows "i < length gs"
proof (rule ccontr)
  assume "\<not> i < length gs"
  then have "\<forall>k < length gs. snd (gs ! k) = 0"
    using assms(1) by (simp add: givers_ok_def)
  then have "sum_list (map snd gs) = 0" by (rule all_zero_sum)
  moreover have "\<forall>k < length rs. 0 \<le> snd (rs ! k)"
    using assms(2) unfolding receivers_ok_def by (metis less_eq_rat_def not_le_imp_less)
  then have "snd (rs ! j) \<le> sum_list (map snd rs)"
    using assms(4) by (rule elem_le_sum)
  moreover have "0 < snd (rs ! j)"
    using assms(2,4) by (simp add: receivers_ok_def)
  ultimately show False using assms(3) by (simp add: balanced_def)
qed

lemma names_giver_eq:
  assumes "names_ok gs rs" and "k < length gs" and "i < length gs"
  shows "fst (gs ! k) = fst (gs ! i) \<longleftrightarrow> k = i"
proof -
  have "distinct (map fst gs)" using assms(1) by (simp add: names_ok_def)
  then show ?thesis
    using nth_eq_iff_index_eq [of "map fst gs" k i] assms(2,3) by simp
qed

lemma names_receiver_eq:
  assumes "names_ok gs rs" and "k < length rs" and "j < length rs"
  shows "fst (rs ! k) = fst (rs ! j) \<longleftrightarrow> k = j"
proof -
  have "distinct (map fst rs)" using assms(1) by (simp add: names_ok_def)
  then show ?thesis
    using nth_eq_iff_index_eq [of "map fst rs" k j] assms(2,3) by simp
qed

lemma names_giver_receiver:
  assumes "names_ok gs rs" and "k < length gs" and "j < length rs"
  shows "fst (gs ! k) \<noteq> fst (rs ! j)"
proof -
  have "set (map fst gs) \<inter> set (map fst rs) = {}"
    using assms(1) by (simp add: names_ok_def)
  moreover have "fst (gs ! k) \<in> set (map fst gs)" and "fst (rs ! j) \<in> set (map fst rs)"
    using assms(2,3) nth_mem [of k "map fst gs"] nth_mem [of j "map fst rs"]
    by (simp_all del: set_map)
  ultimately show ?thesis by (metis disjoint_iff)
qed

lemma map_fst_update: "i < length xs \<Longrightarrow> map fst (xs[i := (fst (xs ! i), v)]) = map fst xs"
  by (simp add: map_update list_update_same_conv)

lemma inv_transfer:
  assumes n: "names_ok gs rs" and g: "givers_ok gs i" and r: "receivers_ok rs j"
    and b: "balanced gs rs" and s: "symmetric_edges S" and a: "accounted T gs rs S"
    and i: "i < length gs" and j: "j < length rs"
    and u: "update_adjacency_graph S (fst (gs ! i)) (fst (rs ! j)) x = Inr S'"
    and c: "(i' = i + 1 \<and> j' = j \<and> x = snd (gs ! i) \<and> x < snd (rs ! j))
            \<or> (i' = i \<and> j' = j + 1 \<and> x = snd (rs ! j) \<and> x \<le> snd (gs ! i))"
    and gs': "gs' = gs[i := (fst (gs ! i), snd (gs ! i) - x)]"
    and rs': "rs' = rs[j := (fst (rs ! j), snd (rs ! j) - x)]"
  shows "names_ok gs' rs'" and "givers_ok gs' i'" and "receivers_ok rs' j'"
    and "balanced gs' rs'" and "symmetric_edges S'" and "accounted T gs' rs' S'"
proof -
  have fg: "map fst gs' = map fst gs" and fr: "map fst rs' = map fst rs"
    unfolding gs' rs' by (simp_all add: map_fst_update i j)
  show "names_ok gs' rs'"
    using n by (simp add: names_ok_def fg fr)
  have lg: "length gs' = length gs" and lr: "length rs' = length rs"
    by (simp_all add: gs' rs')
  have ng: "gs' ! k = (if k = i then (fst (gs ! i), snd (gs ! i) - x) else gs ! k)"
    if "k < length gs" for k
    using that by (simp add: gs' nth_list_update)
  have nr: "rs' ! k = (if k = j then (fst (rs ! j), snd (rs ! j) - x) else rs ! k)"
    if "k < length rs" for k
    using that by (simp add: rs' nth_list_update)
  show "givers_ok gs' i'"
    unfolding givers_ok_def lg
  proof (intro allI impI)
    fix k assume k: "k < length gs"
    have old: "(k < i \<longrightarrow> snd (gs ! k) = 0) \<and> 0 \<le> snd (gs ! k) \<and> (i < k \<longrightarrow> 0 < snd (gs ! k))"
      using g k by (simp add: givers_ok_def)
    show "(k < i' \<longrightarrow> snd (gs' ! k) = 0) \<and> 0 \<le> snd (gs' ! k) \<and> (i' < k \<longrightarrow> 0 < snd (gs' ! k))"
      using old c by (cases "k = i") (auto simp: ng [OF k] ng [OF i])
  qed
  show "receivers_ok rs' j'"
    unfolding receivers_ok_def lr
  proof (intro allI impI)
    fix k assume k: "k < length rs"
    have old: "(k < j \<longrightarrow> snd (rs ! k) = 0) \<and> (j \<le> k \<longrightarrow> 0 < snd (rs ! k))"
      using r k by (simp add: receivers_ok_def)
    show "(k < j' \<longrightarrow> snd (rs' ! k) = 0) \<and> (j' \<le> k \<longrightarrow> 0 < snd (rs' ! k))"
      using old c by (cases "k = j") (auto simp: nr [OF k] nr [OF j])
  qed
  show "balanced gs' rs'"
    using b unfolding balanced_def gs' rs' sum_snd_update [OF i] sum_snd_update [OF j]
    by simp
  have dp: "fst (gs ! i) \<noteq> fst (rs ! j)"
    by (rule names_giver_receiver [OF n i j])
  show "symmetric_edges S'"
    by (rule update_symmetric [OF u dp s])
  note tot = update_total [OF u dp symmetric_edgesD [OF s]]
  show "accounted T gs' rs' S'"
    unfolding accounted_def lg lr fg fr
  proof (intro conjI allI impI)
    fix k assume k: "k < length gs"
    have "fst (gs ! k) \<noteq> fst (rs ! j)"
      by (rule names_giver_receiver [OF n k j])
    moreover have "total S (fst (gs ! k)) + snd (gs ! k) = T (fst (gs ! k))"
      using a k by (simp add: accounted_def)
    ultimately show "total S' (fst (gs' ! k)) + snd (gs' ! k) = T (fst (gs' ! k))"
      using names_giver_eq [OF n k i] by (cases "k = i") (simp_all add: ng [OF k] ng [OF i] tot dp)
  next
    fix k assume k: "k < length rs"
    have "fst (gs ! i) \<noteq> fst (rs ! k)"
      by (rule names_giver_receiver [OF n i k])
    then have "fst (rs ! k) \<noteq> fst (gs ! i)" by (rule not_sym)
    moreover have "total S (fst (rs ! k)) - snd (rs ! k) = T (fst (rs ! k))"
      using a k by (simp add: accounted_def)
    ultimately show "total S' (fst (rs' ! k)) - snd (rs' ! k) = T (fst (rs' ! k))"
      using names_receiver_eq [OF n k j] by (cases "k = j") (simp_all add: nr [OF k] nr [OF j] tot dp)
  next
    fix a assume "map_of S' a \<noteq> None"
    then have "a = fst (gs ! i) \<or> a = fst (rs ! j) \<or> map_of S a \<noteq> None"
      unfolding update_map_of [OF u dp symmetric_edgesD [OF s]] by (simp split: if_splits)
    moreover have "fst (gs ! i) \<in> set (map fst gs)" and "fst (rs ! j) \<in> set (map fst rs)"
      using i j nth_mem [of i "map fst gs"] nth_mem [of j "map fst rs"]
      by (simp_all del: set_map)
    moreover have "map_of S a \<noteq> None \<longrightarrow> a \<in> set (map fst gs) \<union> set (map fst rs)"
      using a by (simp add: accounted_def)
    ultimately show "a \<in> set (map fst gs) \<union> set (map fst rs)" by blast
  qed
qed

lemma loop_body_inv:
  assumes inv: "loop_inv T st" and cr: "current_receiver st < length (receivers st)"
  shows "\<exists>st'. loop_body st = Inr st' \<and> loop_inv T st'
           \<and> map fst (givers st') = map fst (givers st)
           \<and> map fst (receivers st') = map fst (receivers st)"
proof -
  define gs rs i j S where "gs = givers st" and "rs = receivers st"
    and "i = current_giver st" and "j = current_receiver st"
    and "S = simplified_debt_hash st"
  note d = gs_def rs_def i_def j_def S_def
  have n: "names_ok gs rs" and g: "givers_ok gs i" and r: "receivers_ok rs j"
    and b: "balanced gs rs" and s: "symmetric_edges S" and a: "accounted T gs rs S"
    using inv by (simp_all add: loop_inv_def d)
  have j: "j < length rs" using cr by (simp add: d)
  have i: "i < length gs" by (rule giver_in_range [OF g r b j])
  define x where "x = (if snd (gs ! i) < snd (rs ! j) then snd (gs ! i) else snd (rs ! j))"
  define i' j' where "i' = (if snd (gs ! i) < snd (rs ! j) then i + 1 else i)"
    and "j' = (if snd (gs ! i) < snd (rs ! j) then j else j + 1)"
  define gs' rs' where "gs' = gs[i := (fst (gs ! i), snd (gs ! i) - x)]"
    and "rs' = rs[j := (fst (rs ! j), snd (rs ! j) - x)]"
  obtain S' where u: "update_adjacency_graph S (fst (gs ! i)) (fst (rs ! j)) x = Inr S'"
    using update_succeeds [of S "fst (gs ! i)" "fst (rs ! j)" x]
      symmetric_edgesD [OF s, of "fst (gs ! i)" "fst (rs ! j)"]
    by auto
  have c: "(i' = i + 1 \<and> j' = j \<and> x = snd (gs ! i) \<and> x < snd (rs ! j))
            \<or> (i' = i \<and> j' = j + 1 \<and> x = snd (rs ! j) \<and> x \<le> snd (gs ! i))"
    by (simp add: x_def i'_def j'_def)
  note t = inv_transfer [OF n g r b s a i j u c gs'_def rs'_def]
  define st' where "st' =
     (if snd (gs ! i) < snd (rs ! j)
      then st\<lparr>givers := gs', receivers := rs', simplified_debt_hash := S',
               current_giver := i + 1\<rparr>
      else st\<lparr>givers := gs', receivers := rs', simplified_debt_hash := S',
               current_receiver := j + 1\<rparr>)"
  have f: "givers st' = gs'" "receivers st' = rs'" "simplified_debt_hash st' = S'"
    "current_giver st' = i'" "current_receiver st' = j'"
    by (simp_all add: st'_def i'_def j'_def d)
  have "loop_body st = Inr st'"
  proof (cases "snd (gs ! i) < snd (rs ! j)")
    case True
    with u have "update_adjacency_graph S (fst (gs ! i)) (fst (rs ! j)) (snd (gs ! i)) = Inr S'"
      by (simp add: x_def)
    then show ?thesis
      using i j True
      by (simp add: loop_body_def index_def ebind_def Let_def d [symmetric] x_def
            gs'_def rs'_def st'_def)
  next
    case False
    with u have "update_adjacency_graph S (fst (gs ! i)) (fst (rs ! j)) (snd (rs ! j)) = Inr S'"
      by (simp add: x_def)
    then show ?thesis
      using i j False
      by (simp add: loop_body_def index_def ebind_def Let_def d [symmetric] x_def
            gs'_def rs'_def st'_def)
  qed
  moreover have "loop_inv T st'"
    using t by (simp add: loop_inv_def f)
  moreover have "map fst (givers st') = map fst (givers st)"
    and "map fst (receivers st') = map fst (receivers st)"
    using i j by (simp_all add: f gs'_def rs'_def map_fst_update d [symmetric])
  ultimately show ?thesis by blast
qed

lemma nonneg_zero_sum:
  assumes "\<forall>k < length xs. 0 \<le> snd (xs ! k)" and "sum_list (map snd xs) = 0"
    and "k < length (xs :: ('a \<times> rat) list)"
  shows "snd (xs ! k) = 0"
  using elem_le_sum [OF assms(1,3)] assms by (simp add: order_antisym)

lemma greedy_loop_inv:
  assumes "loop_inv T st"
  shows "\<exists>S. greedy_loop st = Inr S \<and> symmetric_edges S
           \<and> (\<forall>a \<in> set (map fst (givers st)) \<union> set (map fst (receivers st)).
                 total S a = T a)
           \<and> (\<forall>a. map_of S a \<noteq> None \<longrightarrow>
                 a \<in> set (map fst (givers st)) \<union> set (map fst (receivers st)))"
  using assms
proof (induction st rule: greedy_loop.induct)
  case (1 st)
  show ?case
  proof (cases "current_receiver st < length (receivers st)")
    case True
    from loop_body_inv [OF "1.prems" True] obtain st' where
      b: "loop_body st = Inr st'" and inv': "loop_inv T st'"
      and fg: "map fst (givers st') = map fst (givers st)"
      and fr: "map fst (receivers st') = map fst (receivers st)"
      by blast
    from "1.IH" [OF True b inv'] show ?thesis
      unfolding fg fr greedy_loop.simps [of st] using True b by simp
  next
    case False
    define gs rs j S where "gs = givers st" and "rs = receivers st"
      and "j = current_receiver st" and "S = simplified_debt_hash st"
    note d = gs_def rs_def j_def S_def
    have g: "givers_ok gs (current_giver st)" and r: "receivers_ok rs j"
      and b: "balanced gs rs" and s: "symmetric_edges S" and a: "accounted T gs rs S"
      using "1.prems" by (simp_all add: loop_inv_def d)
    have j: "length rs \<le> j" using False by (simp add: d)
    have rz: "snd (rs ! k) = 0" if "k < length rs" for k
      using r that j by (simp add: receivers_ok_def)
    then have "sum_list (map snd rs) = 0" by (simp add: all_zero_sum)
    then have sg: "sum_list (map snd gs) = 0" using b by (simp add: balanced_def)
    have gn: "\<forall>k < length gs. 0 \<le> snd (gs ! k)"
      using g by (simp add: givers_ok_def)
    have gz: "snd (gs ! k) = 0" if "k < length gs" for k
      by (rule nonneg_zero_sum [OF gn sg that])
    have ag: "total S (fst (gs ! k)) + snd (gs ! k) = T (fst (gs ! k))"
      if "k < length gs" for k
      using a that by (simp add: accounted_def)
    have ar: "total S (fst (rs ! k)) - snd (rs ! k) = T (fst (rs ! k))"
      if "k < length rs" for k
      using a that by (simp add: accounted_def)
    have "total S p = T p" if "p \<in> set (map fst gs) \<union> set (map fst rs)" for p
    proof -
      from that consider k where "k < length gs" "p = fst (gs ! k)"
        | k where "k < length rs" "p = fst (rs ! k)"
        by (auto simp: in_set_conv_nth)
      then show ?thesis
      proof cases
        case 1
        then show ?thesis using ag [OF 1(1)] gz [OF 1(1)] by simp
      next
        case 2
        then show ?thesis using ar [OF 2(1)] rz [OF 2(1)] by simp
      qed
    qed
    moreover have "greedy_loop st = Inr S"
      using False by (simp add: greedy_loop.simps [of st] d)
    moreover have "\<forall>a. map_of S a \<noteq> None \<longrightarrow> a \<in> set (map fst gs) \<union> set (map fst rs)"
      using a by (simp add: accounted_def)
    ultimately show ?thesis using s unfolding d by blast
  qed
qed

lemma map_of_tabulate:
  "map_of (map (\<lambda>k. (k, f k)) ks) p = (if p \<in> set ks then Some (f p) else None)"
  by (induction ks) auto

lemma ebind_Inr: "ebind (Inr x) f = f x"
  by (simp add: ebind_def)

lemma collect_lookup:
  assumes "set ps \<subseteq> set ks"
  shows "collect (\<lambda>p. ebind (getitem (map (\<lambda>k. (k, f k)) ks) p) (\<lambda>t. Inr (p, t))) ps
           = Inr (map (\<lambda>p. (p, f p)) ps)"
  using assms by (induction ps) (auto simp: ebind_def getitem_def map_of_tabulate)

lemma simplify_transactions_eq:
  "simplify_transactions g = greedy_loop (initial_state g)"
  by (simp only: simplify_transactions_def people_and_total_debt_eq ebind_Inr prod.case
        collect_lookup [OF subset_refl] Let_def initial_state_def debts_of_def)

lemma distinct_split:
  assumes "distinct (map fst xs)" and "\<And>x. \<not> (P x \<and> N x)"
  shows "distinct (map fst (filter P xs) @ map fst (filter N xs))"
  using assms(1)
proof (induction xs)
  case Nil
  then show ?case by simp
next
  case (Cons a xs)
  then have "fst a \<notin> fst ` set xs" and "distinct (map fst xs)" by simp_all
  then show ?case using Cons.IH assms(2) [of a] by (auto simp: image_iff)
qed

lemma map_fst_negate: "map fst (map (\<lambda>(p, t). (p, - t)) xs) = map fst xs"
  by (induction xs) auto

lemma sum_split:
  "sum_list (map snd xs) =
     sum_list (map snd (filter (\<lambda>(p, t). 0 < t) xs))
     - sum_list (map snd (map (\<lambda>(p, t). (p, - t)) (filter (\<lambda>(p, t). t < (0::rat)) xs)))"
proof (induction xs)
  case Nil
  show ?case by simp
next
  case (Cons a xs)
  obtain p t where a: "a = (p, t)" by (cases a)
  consider "t < 0" | "t = 0" | "0 < t" by linarith
  then show ?case using Cons.IH by cases (simp_all add: a)
qed

lemma initial_inv:
  assumes d: "distinct (keys g)" and z: "sum_list (map snd (debts_of g)) = 0"
  shows "loop_inv (total g) (initial_state g)"
proof -
  define gs rs where "gs = filter (\<lambda>(p, t). 0 < t) (debts_of g)"
    and "rs = map (\<lambda>(p, t). (p, - t)) (filter (\<lambda>(p, t). t < 0) (debts_of g))"
  have dd: "distinct (map fst (debts_of g))"
    using d by (simp add: debts_of_def comp_def)
  have mem: "snd x = total g (fst x)" if "x \<in> set (debts_of g)" for x
    using that by (auto simp: debts_of_def)
  have "names_ok gs rs"
    unfolding names_ok_def gs_def rs_def map_fst_negate
    by (rule distinct_split [OF dd]) auto
  moreover have gpos: "0 < snd (gs ! k) \<and> snd (gs ! k) = total g (fst (gs ! k))"
    if "k < length gs" for k
  proof -
    have "gs ! k \<in> set gs" using that by simp
    then show ?thesis using mem [of "gs ! k"] by (auto simp: gs_def)
  qed
  moreover have rpos: "0 < snd (rs ! k) \<and> - snd (rs ! k) = total g (fst (rs ! k))"
    if "k < length rs" for k
  proof -
    have "rs ! k \<in> set rs" using that by simp
    then obtain p t where "(p, t) \<in> set (debts_of g)" and "t < 0" and "rs ! k = (p, - t)"
      by (auto simp: rs_def)
    then show ?thesis using mem [of "(p, t)"] by simp
  qed
  moreover have "balanced gs rs"
    using z sum_split [of "debts_of g"] by (simp add: balanced_def gs_def rs_def)
  moreover have "symmetric_edges ([] :: 'a graph)"
    by (simp add: symmetric_edges_def edge_def)
  moreover have "givers_ok gs 0"
  proof -
    have "0 < snd (gs ! k)" if "k < length gs" for k using gpos [OF that] by (rule conjunct1)
    then show ?thesis by (simp add: givers_ok_def less_imp_le)
  qed
  moreover have "receivers_ok rs 0"
  proof -
    have "0 < snd (rs ! k)" if "k < length rs" for k using rpos [OF that] by (rule conjunct1)
    then show ?thesis by (simp add: receivers_ok_def)
  qed
  moreover have "accounted (total g) gs rs []"
    unfolding accounted_def
  proof (intro conjI allI impI)
    fix k assume "k < length gs"
    then show "total [] (fst (gs ! k)) + snd (gs ! k) = total g (fst (gs ! k))"
      using gpos [of k] by (simp add: total_def)
  next
    fix k assume "k < length rs"
    then show "total [] (fst (rs ! k)) - snd (rs ! k) = total g (fst (rs ! k))"
      using rpos [of k] by (simp add: total_def)
  next
    fix a :: 'a assume "map_of ([] :: 'a graph) a \<noteq> None"
    then show "a \<in> set (map fst gs) \<union> set (map fst rs)" by simp
  qed
  ultimately show ?thesis
    unfolding loop_inv_def initial_state_def gs_def [symmetric] rs_def [symmetric]
    by simp
qed

lemma names_initial:
  "set (map fst (givers (initial_state g))) \<union> set (map fst (receivers (initial_state g)))
     = {p \<in> set (keys g). total g p \<noteq> 0}"
  by (auto simp: initial_state_def debts_of_def map_fst_negate image_iff)

lemma simplify_result:
  assumes d: "distinct (keys g)" and z: "sum_list (map snd (debts_of g)) = 0"
  shows "\<exists>S. simplify_transactions g = Inr S
           \<and> (\<forall>p \<in> set (keys g).
                 (total g p \<noteq> 0 \<longrightarrow>
                    (\<exists>m. getitem S p = Inr m \<and> sum_list (values_of m) = total g p))
                 \<and> (total g p = 0 \<longrightarrow> getitem S p = Inl KeyError))"
proof -
  from greedy_loop_inv [OF initial_inv [OF d z]] obtain S where
    S: "greedy_loop (initial_state g) = Inr S"
    and tt: "\<And>a. a \<in> {p \<in> set (keys g). total g p \<noteq> 0} \<Longrightarrow> total S a = total g a"
    and dom: "\<And>a. map_of S a \<noteq> None \<Longrightarrow> a \<in> {p \<in> set (keys g). total g p \<noteq> 0}"
    unfolding names_initial by blast
  have "\<exists>m. getitem S p = Inr m \<and> sum_list (values_of m) = total g p"
    if "p \<in> set (keys g)" and "total g p \<noteq> 0" for p
  proof -
    have "total S p = total g p" using tt that by simp
    with that(2) show ?thesis
      by (cases "map_of S p") (simp_all add: total_def getitem_def)
  qed
  moreover have "getitem S p = Inl KeyError" if "total g p = 0" for p
    using dom [of p] that by (cases "map_of S p") (simp_all add: getitem_def)
  ultimately show ?thesis
    using S by (auto simp: simplify_transactions_eq)
qed

lemma pipeline:
  assumes "iterates ppl ts" and "\<forall>t \<in> set ts. debtor t \<noteq> pay_to t"
  shows "\<exists>g. transaction_adjacency_graph ppl ts = Inr g \<and> keys g = ppl
            \<and> (\<forall>a. total g a = net ts a)
            \<and> sum_list (map snd (debts_of g)) = 0"
proof -
  from iterates_subset [OF assms(1)] have d: "distinct ppl"
    and sub: "set (map debtor ts) \<union> set (map pay_to ts) \<subseteq> set ppl" by blast+
  from graph_of_transactions [OF assms(2) sub] obtain g where
    g: "transaction_adjacency_graph ppl ts = Inr g" and k: "keys g = ppl"
    and tt: "\<And>a. total g a = net ts a" by blast
  have "sum_list (map snd (debts_of g)) = 0"
    by (simp add: debts_of_def comp_def k tt sum_net [OF d sub])
  with g k tt show ?thesis by blast
qed

lemma loop_terminates_lemma:
  assumes "iterates ppl ts" and "\<forall>t \<in> set ts. debtor t \<noteq> pay_to t"
  shows "\<exists>g S. transaction_adjacency_graph ppl ts = Inr g \<and> simplify_transactions g = Inr S"
proof -
  from pipeline [OF assms] obtain g where
    g: "transaction_adjacency_graph ppl ts = Inr g" and k: "keys g = ppl"
    and z: "sum_list (map snd (debts_of g)) = 0" by blast
  have d: "distinct (keys g)"
    using iterates_subset [OF assms(1)] k by simp
  from simplify_result [OF d z] g show ?thesis by blast
qed

lemma loop_body_progress:
  assumes "loop_body st = Inr st'"
  shows "remaining_iterations st' < remaining_iterations st
         \<and> (current_giver st' = current_giver st + 1
              \<and> current_receiver st' = current_receiver st
              \<and> snd (givers st' ! current_giver st) = 0
            \<or> current_giver st' = current_giver st
              \<and> current_receiver st' = current_receiver st + 1
              \<and> snd (receivers st' ! current_receiver st) = 0)"
  using assms
  by (auto simp: loop_body_def ebind_def index_def remaining_iterations_def Let_def
           split: if_splits sum.splits)

lemma tie_step:
  assumes "loop_body st = Inr st'"
    and "snd (givers st ! current_giver st) = snd (receivers st ! current_receiver st)"
  shows "current_giver st' = current_giver st
         \<and> current_receiver st' = current_receiver st + 1
         \<and> current_giver st' < length (givers st')
         \<and> snd (givers st' ! current_giver st') = 0
         \<and> receivers st' ! current_receiver st' = receivers st ! (current_receiver st + 1)"
  using assms
  by (auto simp: loop_body_def ebind_def index_def Let_def split: if_splits sum.splits)

lemma after_tie_step:
  assumes "loop_body st' = Inr st''"
    and "snd (givers st' ! current_giver st') = 0"
    and "0 < snd (receivers st' ! current_receiver st')"
  shows "current_giver st'' = current_giver st' + 1
         \<and> current_receiver st'' = current_receiver st'"
  using assms
  by (auto simp: loop_body_def ebind_def index_def Let_def split: if_splits sum.splits)

lemma collect_cong:
  "(\<And>x. x \<in> set xs \<Longrightarrow> f x = g x) \<Longrightarrow> collect f xs = collect g xs"
  by (induction xs) simp_all

section \<open>The standard example in every iteration order\<close>

lemma interleave_head: "x # ys \<in> set (interleave x ys)"
  by (cases ys) simp_all

lemma interleave_remove1: "x \<in> set ys \<Longrightarrow> ys \<in> set (interleave x (remove1 x ys))"
  by (induction ys) (auto simp: interleave_head)

lemma orders_complete:
  "distinct xs \<Longrightarrow> distinct ys \<Longrightarrow> set ys = set xs \<Longrightarrow> ys \<in> set (orders xs)"
proof (induction xs arbitrary: ys)
  case Nil
  then show ?case by simp
next
  case (Cons x xs)
  have x: "x \<in> set ys" using Cons.prems(3) by simp
  have "distinct (remove1 x ys)" using Cons.prems(2) by simp
  moreover have "set (remove1 x ys) = set xs"
    using Cons.prems by (auto simp: set_remove1_eq)
  ultimately have "remove1 x ys \<in> set (orders xs)"
    using Cons.IH Cons.prems(1) by simp
  with interleave_remove1 [OF x] show ?case by auto
qed

lemma net_standard:
  "net standard_transactions ''Kevin'' = 1525 / 2"
  "net standard_transactions ''Xander'' = - 2320"
  "net standard_transactions ''John'' = 830"
  "net standard_transactions ''William'' = 1455 / 2"
  by (simp_all add: net_def standard_transactions_def)

lemma standard_no_self: "\<forall>t \<in> set standard_transactions. debtor t \<noteq> pay_to t"
  by (simp add: standard_transactions_def)

lemma standard_people:
  "all_people standard_transactions = set [''Kevin'', ''Xander'', ''John'', ''William'']"
  by (auto simp: all_people_def standard_transactions_def)

lemma standard_orders:
  assumes "iterates ppl standard_transactions"
  shows "ppl \<in> set (orders [''Kevin'', ''Xander'', ''John'', ''William''])"
  using assms unfolding iterates_def standard_people
  by (intro orders_complete) simp_all

lemma same_planD:
  assumes "same_plan r E"
  shows "\<exists>S. r = Inr S \<and> as_mapping S = as_mapping E"
proof (cases r)
  case (Inl e)
  with assms show ?thesis by (simp add: same_plan_def)
next
  case (Inr S)
  with assms have k: "set (keys S) = set (keys E)"
    and c: "\<And>a b. a \<in> set (keys S) \<Longrightarrow> b \<in> set (keys (inner S a)) \<union> set (keys (inner E a))
              \<Longrightarrow> edge S a b = edge E a b"
    by (simp_all add: same_plan_def)
  have "edge S a b = edge E a b" for a b
  proof (cases "a \<in> set (keys S) \<and> b \<in> set (keys (inner S a)) \<union> set (keys (inner E a))")
    case True
    then show ?thesis using c by blast
  next
    case False
    then have "edge S a b = None" and "edge E a b = None"
      using k edge_present_iff [of S a b] edge_present_iff [of E a b] by auto
    then show ?thesis by simp
  qed
  with k have "as_mapping S = as_mapping E" by (rule as_mapping_eqI)
  with Inr show ?thesis by simp
qed

lemma standard_plans:
  "\<forall>ppl \<in> set (orders [''Kevin'', ''Xander'', ''John'', ''William'']).
     same_plan (plan_of standard_transactions ppl) single_actual_simplified"
  by code_simp

section \<open>Evaluating the rounding\<close>

lemma scale_numeral:
  "scale (numeral k) m e =
     (if m < 2 ^ 52 then scale (pred_numeral k) (2 * m) (e - 1)
      else if 2 ^ 53 \<le> m then scale (pred_numeral k) (m / 2) (e + 1)
      else (m, e))"
  by (simp add: numeral_eq_Suc)

lemma floor_rat_numeral:
  "\<lfloor>(numeral a :: rat) / numeral b\<rfloor> = numeral a div numeral b"
  using floor_divide_of_int_eq [of "numeral a" "numeral b", where ?'a = rat] by simp

lemmas round_defs = round_double_def scale_numeral round_even_def Let_def floor_rat_numeral

lemma python_literals:
  "round_double (1 / 10) = 3602879701896397 / 36028797018963968"
  "round_double (2 / 10) = 3602879701896397 / 18014398509481984"
  "round_double (3 / 10) = 5404319552844595 / 18014398509481984"
  by (simp_all add: round_defs)

lemmas float_eval_defs = transaction_adjacency_graph_float_def update_adjacency_graph_float_def
  iadd_edge_float_def isub_edge_float_def assign_edge_def ebind_def getitem_def keys_def

section \<open>Evaluating the functions on concrete inputs\<close>

lemmas eval_defs = transaction_adjacency_graph_def update_adjacency_graph_def ebind_def
  getitem_def keys_def values_of_def assign_edge_def iadd_edge_def isub_edge_def Let_def
  people_and_total_debt_def iterates_def all_people_def simplify_transactions_def
  greedy_loop.simps loop_body_def index_def

section \<open>The claims\<close>

text \<open>
  C1 (as stated): for every list of transactions the totals of
  \<open>people_and_total_debt\<close> on the graph of \<open>transaction_adjacency_graph\<close> sum to zero.
  It fails on a transaction whose debtor is its own payee: the second write overwrites
  the first, the only total is \<open>-5\<close>.
\<close>

theorem conservation_fails_on_self_loop:
  "iterates [''A''] [\<lparr>debtor = ''A'', pay_to = ''A'', amount = 5\<rparr>]
   \<and> transaction_adjacency_graph [''A''] [\<lparr>debtor = ''A'', pay_to = ''A'', amount = 5\<rparr>]
       = Inr [(''A'', [(''A'', - 5)])]
   \<and> people_and_total_debt [(''A'', [(''A'', - 5)])] = Inr ([''A''], [(''A'', - 5)])
   \<and> sum_list (values_of [(''A'', - 5 :: rat)]) \<noteq> 0"
  by (simp add: eval_defs)

text \<open>
  C1 (amended): for every list of transactions in which no transaction has its debtor
  as its payee, and every iteration order of the set of people,
  \<open>transaction_adjacency_graph\<close> returns a graph, \<open>people_and_total_debt\<close> returns its
  totals, and the totals sum to exactly zero.
\<close>

theorem totals_sum_to_zero:
  assumes "iterates ppl ts" and "\<forall>t \<in> set ts. debtor t \<noteq> pay_to t"
  shows "\<exists>g people tot. transaction_adjacency_graph ppl ts = Inr g
           \<and> people_and_total_debt g = Inr (people, tot)
           \<and> sum_list (values_of tot) = 0"
proof -
  from iterates_subset [OF assms(1)] have d: "distinct ppl"
    and sub: "set (map debtor ts) \<union> set (map pay_to ts) \<subseteq> set ppl" by blast+
  from graph_of_transactions [OF assms(2) sub] obtain g where
    g: "transaction_adjacency_graph ppl ts = Inr g" and k: "keys g = ppl"
    and tt: "\<And>a. total g a = net ts a" by blast
  have "sum_list (values_of (map (\<lambda>k. (k, total g k)) (keys g))) = 0"
    by (simp add: values_of_def comp_def k tt sum_net [OF d sub])
  then show ?thesis
    using g people_and_total_debt_eq [of g] by blast
qed

theorem totals_sum_to_zero_witness:
  "iterates [''A'', ''B''] [\<lparr>debtor = ''A'', pay_to = ''B'', amount = 5\<rparr>]
   \<and> (\<exists>g people tot.
         transaction_adjacency_graph [''A'', ''B'']
           [\<lparr>debtor = ''A'', pay_to = ''B'', amount = 5\<rparr>] = Inr g
         \<and> people_and_total_debt g = Inr (people, tot)
         \<and> sum_list (values_of tot) = 0)"
proof -
  have h1: "iterates [''A'', ''B''] [\<lparr>debtor = ''A'', pay_to = ''B'', amount = 5\<rparr>]"
    by (auto simp: iterates_def all_people_def)
  have h2: "\<forall>t \<in> set [\<lparr>debtor = ''A'', pay_to = ''B'', amount = 5\<rparr>]. debtor t \<noteq> pay_to t"
    by simp
  from totals_sum_to_zero [OF h1 h2] h1 show ?thesis by blast
qed

text \<open>
  C2 (as stated): for every graph of \<open>transaction_adjacency_graph\<close> and every person
  \<open>P\<close> of it, also one with total 0, the values of \<^verbatim>\<open>simplified[P]\<close> sum to
  \<^verbatim>\<open>total[P]\<close>. It fails twice. A person whose total is 0 is in neither list, so
  \<^verbatim>\<open>simplified[P]\<close> raises KeyError; and on the graph of a transaction to oneself
  \<open>simplify_transactions\<close> raises IndexError.
\<close>

theorem simplified_conservation_fails:
  "transaction_adjacency_graph [''A'', ''B'']
     [\<lparr>debtor = ''A'', pay_to = ''B'', amount = 10\<rparr>,
      \<lparr>debtor = ''B'', pay_to = ''A'', amount = 10\<rparr>]
     = Inr [(''A'', [(''B'', 0)]), (''B'', [(''A'', 0)])]
   \<and> people_and_total_debt [(''A'', [(''B'', 0)]), (''B'', [(''A'', 0)])]
     = Inr ([''A'', ''B''], [(''A'', 0), (''B'', 0)])
   \<and> simplify_transactions [(''A'', [(''B'', 0)]), (''B'', [(''A'', 0)])] = Inr []
   \<and> getitem ([] :: string graph) ''A'' = Inl KeyError
   \<and> transaction_adjacency_graph [''A''] [\<lparr>debtor = ''A'', pay_to = ''A'', amount = 5\<rparr>]
     = Inr [(''A'', [(''A'', - 5)])]
   \<and> simplify_transactions [(''A'', [(''A'', - 5)])] = Inl IndexError"
  by (simp add: eval_defs)

text \<open>
  C2 (amended): with exact amounts (integers or fractions, no rounding), for every
  list of transactions in which no debtor is their own payee, and every iteration
  order, the three functions return, and for each person \<open>P\<close> of
  the graph with \<^verbatim>\<open>total[P] != 0\<close> the values of \<^verbatim>\<open>simplified[P]\<close> sum to
  exactly \<^verbatim>\<open>total[P]\<close>, while a person with \<^verbatim>\<open>total[P] == 0\<close> is no key of the
  simplified graph.
\<close>

theorem simplified_conservation:
  assumes "iterates ppl ts" and "\<forall>t \<in> set ts. debtor t \<noteq> pay_to t"
  shows "\<exists>g people tot S.
           transaction_adjacency_graph ppl ts = Inr g
           \<and> people_and_total_debt g = Inr (people, tot)
           \<and> simplify_transactions g = Inr S
           \<and> (\<forall>p \<in> set people. \<exists>v. getitem tot p = Inr v
                 \<and> (v \<noteq> 0 \<longrightarrow> (\<exists>m. getitem S p = Inr m \<and> sum_list (values_of m) = v))
                 \<and> (v = 0 \<longrightarrow> getitem S p = Inl KeyError))"
proof -
  from pipeline [OF assms] obtain g where
    g: "transaction_adjacency_graph ppl ts = Inr g" and k: "keys g = ppl"
    and z: "sum_list (map snd (debts_of g)) = 0" by blast
  have d: "distinct (keys g)"
    using iterates_subset [OF assms(1)] k by simp
  from simplify_result [OF d z] obtain S where
    S: "simplify_transactions g = Inr S"
    and c: "\<And>p. p \<in> set (keys g) \<Longrightarrow>
                 (total g p \<noteq> 0 \<longrightarrow>
                    (\<exists>m. getitem S p = Inr m \<and> sum_list (values_of m) = total g p))
                 \<and> (total g p = 0 \<longrightarrow> getitem S p = Inl KeyError)"
    by blast
  have l: "getitem (map (\<lambda>k. (k, total g k)) (keys g)) p = Inr (total g p)"
    if "p \<in> set (keys g)" for p
    using that by (simp add: getitem_def map_of_tabulate)
  have "\<forall>p \<in> set (keys g). \<exists>v. getitem (map (\<lambda>k. (k, total g k)) (keys g)) p = Inr v
                 \<and> (v \<noteq> 0 \<longrightarrow> (\<exists>m. getitem S p = Inr m \<and> sum_list (values_of m) = v))
                 \<and> (v = 0 \<longrightarrow> getitem S p = Inl KeyError)"
    using c l by blast
  with g S people_and_total_debt_eq [of g] show ?thesis by blast
qed

theorem simplified_conservation_witness:
  "\<exists>S m. simplify_transactions [(''A'', [(''B'', 5)]), (''B'', [(''A'', - 5)])] = Inr S
         \<and> getitem S ''A'' = Inr m \<and> sum_list (values_of m) = 5"
proof -
  let ?ts = "[\<lparr>debtor = ''A'', pay_to = ''B'', amount = 5\<rparr>]"
  let ?G = "[(''A'', [(''B'', 5)]), (''B'', [(''A'', - 5 :: rat)])]"
  let ?T = "[(''A'', 5), (''B'', - 5 :: rat)]"
  have h1: "iterates [''A'', ''B''] ?ts"
    by (auto simp: iterates_def all_people_def)
  have h2: "\<forall>t \<in> set ?ts. debtor t \<noteq> pay_to t"
    by simp
  have g0: "transaction_adjacency_graph [''A'', ''B''] ?ts = Inr ?G"
    by (simp add: eval_defs)
  have p0: "people_and_total_debt ?G = Inr ([''A'', ''B''], ?T)"
    by (simp add: eval_defs)
  from simplified_conservation [OF h1 h2] obtain g people tot S where
    g: "transaction_adjacency_graph [''A'', ''B''] ?ts = Inr g"
    and p: "people_and_total_debt g = Inr (people, tot)"
    and S: "simplify_transactions g = Inr S"
    and c: "\<forall>p \<in> set people. \<exists>v. getitem tot p = Inr v
              \<and> (v \<noteq> 0 \<longrightarrow> (\<exists>m. getitem S p = Inr m \<and> sum_list (values_of m) = v))
              \<and> (v = 0 \<longrightarrow> getitem S p = Inl KeyError)"
    by blast
  from g g0 have eg: "g = ?G" by simp
  with p p0 have ep: "people = [''A'', ''B'']" and et: "tot = ?T" by simp_all
  from c have "\<exists>v. getitem ?T ''A'' = Inr v
              \<and> (v \<noteq> 0 \<longrightarrow> (\<exists>m. getitem S ''A'' = Inr m \<and> sum_list (values_of m) = v))"
    unfolding ep et by auto
  then have "\<exists>m. getitem S ''A'' = Inr m \<and> sum_list (values_of m) = 5"
    by (simp add: getitem_def)
  with S eg show ?thesis by blast
qed

text \<open>
  C3: \<open>update_adjacency_graph\<close> preserves antisymmetry. On a graph whose edges are
  mutually present and antisymmetric, with a debtor distinct from the payee and any
  amount, the call returns (the assertion does not fail) a graph whose edges are again
  mutually present and antisymmetric.
\<close>

theorem update_preserves_antisymmetry:
  assumes "mutually_present g" and "antisymmetric g" and "d \<noteq> p"
  shows "\<exists>g'. update_adjacency_graph g d p x = Inr g'
              \<and> mutually_present g' \<and> antisymmetric g'"
proof -
  from assms(1) have mp: "\<And>a b. edge g a b \<noteq> None \<Longrightarrow> edge g b a \<noteq> None"
    by (simp add: mutually_present_iff)
  then obtain g' where g': "update_adjacency_graph g d p x = Inr g'"
    using update_succeeds [of g d p x] by blast
  have sym: "edge g d p = None \<longleftrightarrow> edge g p d = None"
    using mp by blast
  note e = update_edge [OF g' assms(3) sym]
  have anti: "\<And>a b. edge g a b \<noteq> None \<Longrightarrow> edge g a b = Some (- weight g b a)"
    using assms(2) by (simp add: antisymmetric_iff)
  have w: "weight g d p = - weight g p d"
    using anti [of d p] by (cases "edge g d p") (use sym in \<open>auto simp: weight_def\<close>)
  have "mutually_present g'"
    unfolding mutually_present_iff using mp by (auto simp: e)
  moreover have "antisymmetric g'"
    unfolding antisymmetric_iff
  proof (intro allI impI)
    fix a b assume "edge g' a b \<noteq> None"
    then show "edge g' a b = Some (- weight g' b a)"
      using anti [of a b] anti [of b a] mp [of a b] mp [of b a] w assms(3)
      by (auto simp: e weight_def split: if_splits option.splits)
  qed
  ultimately show ?thesis using g' by blast
qed

theorem update_preserves_antisymmetry_witness:
  "mutually_present [(''A'', [(''B'', 5)]), (''B'', [(''A'', - 5)])]
   \<and> antisymmetric [(''A'', [(''B'', 5)]), (''B'', [(''A'', - 5)])]
   \<and> (\<exists>g'. update_adjacency_graph [(''A'', [(''B'', 5)]), (''B'', [(''A'', - 5)])]
              ''A'' ''B'' 3 = Inr g'
            \<and> mutually_present g' \<and> antisymmetric g')"
proof -
  let ?g = "[(''A'', [(''B'', 5)]), (''B'', [(''A'', - 5 :: rat)])]"
  have h1: "mutually_present ?g"
    by (simp add: mutually_present_def keys_def inner_def)
  have h2: "antisymmetric ?g"
    by (simp add: antisymmetric_def keys_def inner_def edge_def weight_def)
  have h3: "''A'' \<noteq> ''B''" by simp
  from update_preserves_antisymmetry [OF h1 h2 h3] h1 h2 show ?thesis by blast
qed

text \<open>
  C4 (as stated): for every graph of \<open>transaction_adjacency_graph\<close> the loop ends with
  the giver index in range. On the graph of a transaction to oneself there is a receiver
  and no giver, and the first test of the loop reads \<^verbatim>\<open>givers[0]\<close>: IndexError.
\<close>

theorem giver_index_out_of_range:
  "transaction_adjacency_graph [''A''] [\<lparr>debtor = ''A'', pay_to = ''A'', amount = 5\<rparr>]
     = Inr [(''A'', [(''A'', - 5)])]
   \<and> simplify_transactions [(''A'', [(''A'', - 5)])] = Inl IndexError"
  by (simp add: eval_defs)

text \<open>
  C4 (amended): for every list of transactions in which no debtor is their own payee
  (exact arithmetic), \<open>simplify_transactions\<close> returns a graph on the graph of
  \<open>transaction_adjacency_graph\<close>: the loop, a total function whose measure
  \<open>remaining_iterations\<close> every iteration decreases, ends, and never reads the givers
  out of range. Every iteration that completes advances exactly one cursor by one and
  leaves the remaining amount under that cursor at zero.
\<close>

theorem greedy_loop_terminates:
  assumes "iterates ppl ts" and "\<forall>t \<in> set ts. debtor t \<noteq> pay_to t"
  shows "(\<exists>g S. transaction_adjacency_graph ppl ts = Inr g \<and> simplify_transactions g = Inr S)
         \<and> (\<forall>st st' :: 'a loop_state. loop_body st = Inr st' \<longrightarrow>
               remaining_iterations st' < remaining_iterations st
               \<and> (current_giver st' = current_giver st + 1
                    \<and> current_receiver st' = current_receiver st
                    \<and> snd (givers st' ! current_giver st) = 0
                  \<or> current_giver st' = current_giver st
                    \<and> current_receiver st' = current_receiver st + 1
                    \<and> snd (receivers st' ! current_receiver st) = 0))"
  using loop_terminates_lemma [OF assms] loop_body_progress by blast

theorem greedy_loop_terminates_witness:
  "\<exists>g S. transaction_adjacency_graph [''A'', ''B'']
            [\<lparr>debtor = ''A'', pay_to = ''B'', amount = 5\<rparr>] = Inr g
        \<and> simplify_transactions g = Inr S"
proof -
  have h1: "iterates [''A'', ''B''] [\<lparr>debtor = ''A'', pay_to = ''B'', amount = 5\<rparr>]"
    by (auto simp: iterates_def all_people_def)
  have h2: "\<forall>t \<in> set [\<lparr>debtor = ''A'', pay_to = ''B'', amount = 5\<rparr>]. debtor t \<noteq> pay_to t"
    by simp
  from greedy_loop_terminates [OF h1 h2] show ?thesis by (rule conjunct1)
qed

text \<open>
  C5: every entry of the simplified graph in the direction giver to receiver is
  strictly positive. The code does not keep this: after a tie the giver stays under the
  cursor with nothing left, and the next iteration records a payment of 0 from that
  giver to the next receiver. Here \<open>A\<close> owes \<open>B\<close> 5 and \<open>C\<close> owes \<open>D\<close> 5; the
  simplified graph has \<^verbatim>\<open>simplified["A"]["D"] == 0\<close>.
\<close>

theorem zero_payment_after_tie:
  "transaction_adjacency_graph [''A'', ''B'', ''C'', ''D'']
     [\<lparr>debtor = ''A'', pay_to = ''B'', amount = 5\<rparr>,
      \<lparr>debtor = ''C'', pay_to = ''D'', amount = 5\<rparr>]
     = Inr [(''A'', [(''B'', 5)]), (''B'', [(''A'', - 5)]),
            (''C'', [(''D'', 5)]), (''D'', [(''C'', - 5)])]
   \<and> simplify_transactions [(''A'', [(''B'', 5)]), (''B'', [(''A'', - 5)]),
            (''C'', [(''D'', 5)]), (''D'', [(''C'', - 5)])]
     = Inr [(''A'', [(''B'', 5), (''D'', 0)]), (''B'', [(''A'', - 5)]),
            (''D'', [(''A'', 0), (''C'', - 5)]), (''C'', [(''D'', 5)])]"
  by (simp add: eval_defs)

text \<open>
  C6 (as stated): on a tie the iteration advances only the giver cursor. The test of
  the loop is a strict \<^verbatim>\<open><\<close>, so a tie takes the \<^verbatim>\<open>else\<close> branch: the
  receiver cursor advances and the giver cursor stays.
\<close>

theorem tie_advances_receiver_not_giver:
  "loop_body \<lparr>givers = [(''A'', 10)], receivers = [(''B'', 10)],
              current_giver = 0, current_receiver = 0, simplified_debt_hash = []\<rparr>
   = Inr \<lparr>givers = [(''A'', 0)], receivers = [(''B'', 0)],
          current_giver = 0, current_receiver = 1,
          simplified_debt_hash = [(''A'', [(''B'', 10)]), (''B'', [(''A'', - 10)])]\<rparr>"
  by (simp add: eval_defs)

text \<open>
  C6 (amended): whenever the remaining amounts of the current giver and the current
  receiver are equal, the iteration advances only the receiver cursor and leaves the
  giver, with nothing remaining, under its cursor; if another iteration follows, on a
  receiver that still waits for a positive amount, that one advances only the giver
  cursor.
\<close>

theorem tie_advances_receiver:
  assumes "loop_body st = Inr st'"
    and "snd (givers st ! current_giver st) = snd (receivers st ! current_receiver st)"
  shows "current_giver st' = current_giver st
         \<and> current_receiver st' = current_receiver st + 1
         \<and> snd (givers st' ! current_giver st') = 0
         \<and> (\<forall>st''. loop_body st' = Inr st''
                \<and> 0 < snd (receivers st' ! current_receiver st')
              \<longrightarrow> current_giver st'' = current_giver st' + 1
                \<and> current_receiver st'' = current_receiver st')"
  using tie_step [OF assms] after_tie_step [of st'] by blast

theorem tie_advances_receiver_witness:
  "loop_body \<lparr>givers = [(''A'', 5), (''C'', 5)], receivers = [(''B'', 5), (''D'', 5)],
              current_giver = 0, current_receiver = 0, simplified_debt_hash = []\<rparr>
     = Inr \<lparr>givers = [(''A'', 0), (''C'', 5)], receivers = [(''B'', 0), (''D'', 5)],
            current_giver = 0, current_receiver = 1,
            simplified_debt_hash = [(''A'', [(''B'', 5)]), (''B'', [(''A'', - 5)])]\<rparr>
   \<and> loop_body \<lparr>givers = [(''A'', 0), (''C'', 5)], receivers = [(''B'', 0), (''D'', 5)],
            current_giver = 0, current_receiver = 1,
            simplified_debt_hash = [(''A'', [(''B'', 5)]), (''B'', [(''A'', - 5)])]\<rparr>
     = Inr \<lparr>givers = [(''A'', 0), (''C'', 5)], receivers = [(''B'', 0), (''D'', 5)],
            current_giver = 1, current_receiver = 1,
            simplified_debt_hash = [(''A'', [(''B'', 5), (''D'', 0)]), (''B'', [(''A'', - 5)]),
                                    (''D'', [(''A'', 0)])]\<rparr>
   \<and> current_giver \<lparr>givers = [(''A'', 0), (''C'', 5 :: rat)],
            receivers = [(''B'', 0), (''D'', 5 :: rat)],
            current_giver = 1, current_receiver = 1,
            simplified_debt_hash = [(''A'', [(''B'', 5), (''D'', 0)]), (''B'', [(''A'', - 5)]),
                                    (''D'', [(''A'', 0 :: rat)])]\<rparr> = 0 + 1"
proof -
  let ?st = "\<lparr>givers = [(''A'', 5), (''C'', 5 :: rat)],
              receivers = [(''B'', 5), (''D'', 5 :: rat)],
              current_giver = 0, current_receiver = 0, simplified_debt_hash = []\<rparr>"
  let ?st' = "\<lparr>givers = [(''A'', 0), (''C'', 5 :: rat)],
               receivers = [(''B'', 0), (''D'', 5 :: rat)],
               current_giver = 0, current_receiver = 1,
               simplified_debt_hash = [(''A'', [(''B'', 5)]), (''B'', [(''A'', - 5 :: rat)])]\<rparr>"
  let ?st'' = "\<lparr>givers = [(''A'', 0), (''C'', 5 :: rat)],
                receivers = [(''B'', 0), (''D'', 5 :: rat)],
                current_giver = 1, current_receiver = 1,
                simplified_debt_hash = [(''A'', [(''B'', 5), (''D'', 0)]),
                                        (''B'', [(''A'', - 5)]), (''D'', [(''A'', 0 :: rat)])]\<rparr>"
  have h1: "loop_body ?st = Inr ?st'"
    by (simp add: eval_defs)
  have h2: "snd (givers ?st ! current_giver ?st) = snd (receivers ?st ! current_receiver ?st)"
    by simp
  have h3: "loop_body ?st' = Inr ?st''"
    by (simp add: eval_defs)
  have h4: "0 < snd (receivers ?st' ! current_receiver ?st')"
    by simp
  from tie_advances_receiver [OF h1 h2] h3 h4
  have "current_giver ?st'' = current_giver ?st' + 1" by blast
  with h1 h3 show ?thesis by simp
qed

text \<open>
  C7 (as stated): on the nine transactions of the tests the net total of Kevin is
  802.5. The code, like \<^verbatim>\<open>standard_actual_total\<close> of the tests
  (800 - 30 + 20 - 40 + 12.5), gives 762.5.
\<close>

theorem kevin_total_is_not_802_5:
  "ebind (transaction_adjacency_graph [''Kevin'', ''Xander'', ''John'', ''William'']
            standard_transactions) people_and_total_debt
     = Inr ([''Kevin'', ''Xander'', ''John'', ''William''],
            [(''Kevin'', 1525 / 2), (''Xander'', - 2320), (''John'', 830),
             (''William'', 1455 / 2)])
   \<and> getitem [(''Kevin'', 1525 / 2 :: rat), (''Xander'', - 2320), (''John'', 830),
             (''William'', 1455 / 2)] ''Kevin'' \<noteq> Inr (1605 / 2)"
  by (simp add: eval_defs standard_transactions_def)

text \<open>
  C7 (amended): on the nine transactions of the tests, in every iteration order of the
  four people, the net totals are Kevin 762.5, Xander -2320, John 830 and William 727.5,
  and the simplified graph is, as a mapping, \<^verbatim>\<open>single_actual_simplified\<close>: Kevin
  pays Xander 762.5, William pays Xander 727.5, John pays Xander 830, with the negated
  entries under Xander.
\<close>

theorem standard_example:
  assumes "iterates ppl standard_transactions"
  shows "\<exists>g tot S.
           transaction_adjacency_graph ppl standard_transactions = Inr g
           \<and> people_and_total_debt g = Inr (ppl, tot)
           \<and> getitem tot ''Kevin'' = Inr (1525 / 2)
           \<and> getitem tot ''Xander'' = Inr (- 2320)
           \<and> getitem tot ''John'' = Inr 830
           \<and> getitem tot ''William'' = Inr (1455 / 2)
           \<and> simplify_transactions g = Inr S
           \<and> as_mapping S = as_mapping single_actual_simplified"
proof -
  from pipeline [OF assms standard_no_self] obtain g where
    g: "transaction_adjacency_graph ppl standard_transactions = Inr g" and k: "keys g = ppl"
    and tt: "\<And>a. total g a = net standard_transactions a" by blast
  define tot where "tot = map (\<lambda>k. (k, net standard_transactions k)) ppl"
  have p: "people_and_total_debt g = Inr (ppl, tot)"
    by (simp add: people_and_total_debt_eq k tt tot_def)
  have s: "set ppl = {''Kevin'', ''Xander'', ''John'', ''William''}"
    using assms by (simp add: iterates_def standard_people)
  have l: "getitem tot a = Inr (net standard_transactions a)" if "a \<in> set ppl" for a
    using that by (simp add: tot_def getitem_def map_of_tabulate)
  have "simplify_transactions g = plan_of standard_transactions ppl"
    by (simp add: simplify_transactions_eq initial_state_def debts_of_def plan_of_def k tt)
  moreover have "same_plan (plan_of standard_transactions ppl) single_actual_simplified"
    using standard_plans standard_orders [OF assms] by blast
  ultimately obtain S where "simplify_transactions g = Inr S"
    and "as_mapping S = as_mapping single_actual_simplified"
    using same_planD by metis
  then show ?thesis
    using g p l [of "''Kevin''"] l [of "''Xander''"] l [of "''John''"] l [of "''William''"]
    by (simp add: s net_standard)
qed

theorem standard_example_witness:
  "\<exists>g tot S.
     transaction_adjacency_graph [''Kevin'', ''Xander'', ''John'', ''William'']
       standard_transactions = Inr g
     \<and> people_and_total_debt g = Inr ([''Kevin'', ''Xander'', ''John'', ''William''], tot)
     \<and> getitem tot ''Kevin'' = Inr (1525 / 2)
     \<and> getitem tot ''Xander'' = Inr (- 2320)
     \<and> getitem tot ''John'' = Inr 830
     \<and> getitem tot ''William'' = Inr (1455 / 2)
     \<and> simplify_transactions g = Inr S
     \<and> as_mapping S = as_mapping single_actual_simplified"
proof -
  have h: "iterates [''Kevin'', ''Xander'', ''John'', ''William''] standard_transactions"
    by (simp add: iterates_def standard_people)
  from standard_example [OF h] show ?thesis .
qed

text \<open>
  C8 (as stated): for every list of transactions with distinct debtor and payee, every
  permutation of it gives the same graph. The claim puts no condition on the amounts,
  and on floats the sums depend on the order: \<^verbatim>\<open>0.1 + 0.2 + 0.3\<close> is
  \<^verbatim>\<open>0.6000000000000001\<close> and \<^verbatim>\<open>0.3 + 0.2 + 0.1\<close> is \<^verbatim>\<open>0.6\<close>, so
  three transactions from \<open>A\<close> to \<open>B\<close> give two different weights for the edge.
\<close>

theorem order_matters_on_floats:
  "transaction_adjacency_graph_float [''A'', ''B'']
     [\<lparr>debtor = ''A'', pay_to = ''B'', amount = round_double (1 / 10)\<rparr>,
      \<lparr>debtor = ''A'', pay_to = ''B'', amount = round_double (2 / 10)\<rparr>,
      \<lparr>debtor = ''A'', pay_to = ''B'', amount = round_double (3 / 10)\<rparr>]
     = Inr [(''A'', [(''B'', 1351079888211149 / 2251799813685248)]),
            (''B'', [(''A'', - (1351079888211149 / 2251799813685248))])]
   \<and> transaction_adjacency_graph_float [''A'', ''B'']
     [\<lparr>debtor = ''A'', pay_to = ''B'', amount = round_double (3 / 10)\<rparr>,
      \<lparr>debtor = ''A'', pay_to = ''B'', amount = round_double (2 / 10)\<rparr>,
      \<lparr>debtor = ''A'', pay_to = ''B'', amount = round_double (1 / 10)\<rparr>]
     = Inr [(''A'', [(''B'', 5404319552844595 / 9007199254740992)]),
            (''B'', [(''A'', - (5404319552844595 / 9007199254740992))])]
   \<and> (1351079888211149 / 2251799813685248 :: rat) \<noteq> 5404319552844595 / 9007199254740992"
  unfolding python_literals
  by (simp add: float_eval_defs round_defs)

text \<open>
  C8 (amended): with exact amounts (integers or fractions, no rounding),
  \<open>transaction_adjacency_graph\<close> does not depend on the order of the transactions.
  For a list in which every debtor differs from the payee, every permutation of it
  (a list with the same multiset of transactions) and every iteration order of the two
  sets of people, both calls return a graph and the two graphs are equal as mappings.
\<close>

theorem order_independent:
  assumes "\<forall>t \<in> set ts. debtor t \<noteq> pay_to t" and "mset ts' = mset ts"
    and "iterates ppl ts" and "iterates ppl' ts'"
  shows "\<exists>g g'. transaction_adjacency_graph ppl ts = Inr g
               \<and> transaction_adjacency_graph ppl' ts' = Inr g'
               \<and> as_mapping g = as_mapping g'"
proof -
  have ns': "\<forall>t \<in> set ts'. debtor t \<noteq> pay_to t"
    using assms(1) mset_eq_setD [OF assms(2)] by simp
  from graph_of_transactions [OF assms(1)] iterates_subset [OF assms(3)]
  obtain g where g: "transaction_adjacency_graph ppl ts = Inr g" and k: "keys g = ppl"
    and e: "\<And>a b. edge g a b = (if linked ts a b then Some (flow ts a b) else None)"
    by blast
  from graph_of_transactions [OF ns'] iterates_subset [OF assms(4)]
  obtain g' where g': "transaction_adjacency_graph ppl' ts' = Inr g'" and k': "keys g' = ppl'"
    and e': "\<And>a b. edge g' a b = (if linked ts' a b then Some (flow ts' a b) else None)"
    by blast
  have "set (keys g) = set (keys g')"
    using assms(3,4) all_people_mset [OF assms(2)] by (simp add: k k' iterates_def)
  moreover have "edge g a b = edge g' a b" for a b
    by (simp add: e e' flow_mset [OF assms(2)] linked_mset [OF assms(2)])
  ultimately have "as_mapping g = as_mapping g'" by (rule as_mapping_eqI)
  with g g' show ?thesis by blast
qed

theorem order_independent_witness:
  "\<exists>g g'. transaction_adjacency_graph [''A'', ''B'', ''C'']
             [\<lparr>debtor = ''A'', pay_to = ''B'', amount = 5\<rparr>,
              \<lparr>debtor = ''B'', pay_to = ''C'', amount = 3\<rparr>] = Inr g
         \<and> transaction_adjacency_graph [''C'', ''B'', ''A'']
             [\<lparr>debtor = ''B'', pay_to = ''C'', amount = 3\<rparr>,
              \<lparr>debtor = ''A'', pay_to = ''B'', amount = 5\<rparr>] = Inr g'
         \<and> as_mapping g = as_mapping g'"
proof -
  let ?t1 = "\<lparr>debtor = ''A'', pay_to = ''B'', amount = 5\<rparr>"
  let ?t2 = "\<lparr>debtor = ''B'', pay_to = ''C'', amount = 3\<rparr>"
  have h1: "\<forall>t \<in> set [?t1, ?t2]. debtor t \<noteq> pay_to t" by simp
  have h2: "mset [?t2, ?t1] = mset [?t1, ?t2]" by (simp add: add_mset_commute)
  have h3: "iterates [''A'', ''B'', ''C''] [?t1, ?t2]"
    by (auto simp: iterates_def all_people_def)
  have h4: "iterates [''C'', ''B'', ''A''] [?t2, ?t1]"
    by (auto simp: iterates_def all_people_def)
  from order_independent [OF h1 h2 h3 h4] show ?thesis .
qed

text \<open>
  C9: the result of \<open>simplify_transactions\<close> is determined by the result of
  \<open>people_and_total_debt\<close>. Two graphs with the same people in the same order and the
  same total for each of them have the same simplified graph, however their edges are
  arranged.
\<close>

theorem simplify_depends_on_totals_only:
  assumes "people_and_total_debt g1 = Inr (people, tot1)"
    and "people_and_total_debt g2 = Inr (people, tot2)"
    and "\<forall>p \<in> set people. getitem tot1 p = getitem tot2 p"
  shows "simplify_transactions g1 = simplify_transactions g2"
proof -
  have "collect (\<lambda>p. ebind (getitem tot1 p) (\<lambda>t. Inr (p, t))) people
      = collect (\<lambda>p. ebind (getitem tot2 p) (\<lambda>t. Inr (p, t))) people"
    using assms(3) by (intro collect_cong) simp
  then show ?thesis
    by (simp only: simplify_transactions_def assms(1,2) ebind_Inr prod.case)
qed

theorem simplify_depends_on_totals_only_witness:
  "simplify_transactions
     [(''A'', [(''B'', 5)]), (''B'', [(''A'', - 5), (''C'', 5)]), (''C'', [(''B'', - 5)])]
   = simplify_transactions [(''A'', [(''C'', 5)]), (''B'', []), (''C'', [(''A'', - 5)])]"
proof -
  let ?g1 = "[(''A'', [(''B'', 5)]), (''B'', [(''A'', - 5), (''C'', 5)]),
              (''C'', [(''B'', - 5 :: rat)])]"
  let ?g2 = "[(''A'', [(''C'', 5)]), (''B'', []), (''C'', [(''A'', - 5 :: rat)])]"
  let ?tot = "[(''A'', 5), (''B'', 0), (''C'', - 5 :: rat)]"
  have h1: "people_and_total_debt ?g1 = Inr ([''A'', ''B'', ''C''], ?tot)"
    by (simp add: eval_defs)
  have h2: "people_and_total_debt ?g2 = Inr ([''A'', ''B'', ''C''], ?tot)"
    by (simp add: eval_defs)
  have h3: "\<forall>p \<in> set [''A'', ''B'', ''C'']. getitem ?tot p = getitem ?tot p"
    by simp
  from simplify_depends_on_totals_only [OF h1 h2 h3] show ?thesis .
qed

text \<open>
  C10: a transaction of a person \<open>d\<close> to themselves, the only such transaction of the
  list, leaves \<^verbatim>\<open>graph[d][d] == -amount\<close> in the graph that
  \<open>transaction_adjacency_graph\<close> returns: the reverse write overwrites the forward one.
  With a non-zero amount the graph is then not antisymmetric.
\<close>

theorem self_loop_overwrites:
  assumes "iterates ppl (xs @ t # ys)" and "debtor t = pay_to t"
    and "\<forall>u \<in> set xs. debtor u \<noteq> pay_to u" and "\<forall>u \<in> set ys. debtor u \<noteq> pay_to u"
  shows "\<exists>g m. transaction_adjacency_graph ppl (xs @ t # ys) = Inr g
              \<and> getitem g (debtor t) = Inr m \<and> getitem m (debtor t) = Inr (- amount t)
              \<and> (amount t \<noteq> 0 \<longrightarrow> \<not> antisymmetric g)"
  using self_loop_entry [OF refl assms(2) [symmetric] refl assms(3,4), of ppl]
  by (auto simp: getitem_edge)

theorem self_loop_overwrites_witness:
  "\<exists>g m. transaction_adjacency_graph [''A'']
            ([] @ \<lparr>debtor = ''A'', pay_to = ''A'', amount = 5\<rparr> # []) = Inr g
        \<and> getitem g ''A'' = Inr m \<and> getitem m ''A'' = Inr (- 5)
        \<and> \<not> antisymmetric g"
proof -
  let ?t = "\<lparr>debtor = ''A'', pay_to = ''A'', amount = 5\<rparr>"
  have h1: "iterates [''A''] ([] @ ?t # [])"
    by (simp add: iterates_def all_people_def)
  have h2: "debtor ?t = pay_to ?t" by simp
  have h3: "\<forall>u \<in> set ([] :: string transaction list). debtor u \<noteq> pay_to u" by simp
  from self_loop_overwrites [OF h1 h2 h3 h3] show ?thesis by simp
qed

end
